theory Spec2Isabelle
  imports Complex_Main "HOL-Library.Multiset"
begin

section \<open>Numbers\<close>

text \<open>
  The route optimizer (backend/src/utils/routeOptimizer.ts) computes on JavaScript
  numbers, that is on 64-bit doubles. A number is NaN, one of the two infinities, or a
  finite value, given by the real number it stands for (there is a single zero).
\<close>

datatype number = NaN | NegInf | Fin real | PosInf

text \<open>Negation and the comparisons are exact on doubles; they are modelled as they are.\<close>

fun num_neg :: "number \<Rightarrow> number" where
  "num_neg (Fin x) = Fin (- x)"
| "num_neg PosInf = NegInf"
| "num_neg NegInf = PosInf"
| "num_neg NaN = NaN"

text \<open>\<^verbatim>\<open>a < b\<close>: false as soon as one side is NaN.\<close>

fun num_lt :: "number \<Rightarrow> number \<Rightarrow> bool" where
  "num_lt (Fin a) (Fin b) = (a < b)"
| "num_lt NaN b = False"
| "num_lt a NaN = False"
| "num_lt a NegInf = False"
| "num_lt PosInf b = False"
| "num_lt NegInf b = True"
| "num_lt a PosInf = True"

text \<open>\<^verbatim>\<open>a <= b\<close> and \<^verbatim>\<open>a === b\<close>: false as soon as one side is NaN.\<close>

definition num_le :: "number \<Rightarrow> number \<Rightarrow> bool" where
  "num_le a b = (a \<noteq> NaN \<and> b \<noteq> NaN \<and> (a = b \<or> num_lt a b))"

definition num_eq :: "number \<Rightarrow> number \<Rightarrow> bool" where
  "num_eq a b = (a \<noteq> NaN \<and> a = b)"

text \<open>
  \<^verbatim>\<open>Math.round\<close> is exact as well: the nearest integer, a tie going up, is a double
  whenever its argument is one.
\<close>

fun Math_round :: "number \<Rightarrow> number" where
  "Math_round (Fin x) = Fin (of_int \<lfloor>x + 1 / 2\<rfloor>)"
| "Math_round x = x"

text \<open>
  The four arithmetic operations and the other functions of \<^verbatim>\<open>Math\<close> round their
  results, overflow to an infinity and, for the library functions, differ between
  engines. What they return is therefore not fixed here: the arithmetic is a parameter
  \<open>ops\<close> of every function of the program, and a property of the program is proved for
  every arithmetic, or under the properties of the arithmetic it names.
\<close>

record float_ops =
  num_add :: "number \<Rightarrow> number \<Rightarrow> number"
  num_sub :: "number \<Rightarrow> number \<Rightarrow> number"
  num_mul :: "number \<Rightarrow> number \<Rightarrow> number"
  num_div :: "number \<Rightarrow> number \<Rightarrow> number"
  Math_sin :: "number \<Rightarrow> number"
  Math_cos :: "number \<Rightarrow> number"
  Math_sqrt :: "number \<Rightarrow> number"
  Math_atan2 :: "number \<Rightarrow> number \<Rightarrow> number"
  Math_PI :: number

section \<open>Types\<close>

record Location =
  id' :: string
  orderNumber :: string
  address :: string
  latitude :: number
  longitude :: number

record OptimizedRoute =
  sequence :: "string list"
  totalDistance :: number
  estimatedDuration :: number
  algorithm :: string

section \<open>Distance calculation\<close>

definition toRadians :: "float_ops \<Rightarrow> number \<Rightarrow> number" where
  "toRadians ops degrees = num_mul ops degrees (num_div ops (Math_PI ops) (Fin 180))"

definition calculateDistance ::
  "float_ops \<Rightarrow> number \<Rightarrow> number \<Rightarrow> number \<Rightarrow> number \<Rightarrow> number" where
  "calculateDistance ops lat1 lon1 lat2 lon2 =
     (let R = Fin 6371;
          dLat = toRadians ops (num_sub ops lat2 lat1);
          dLon = toRadians ops (num_sub ops lon2 lon1);
          a = num_add ops
                (num_mul ops (Math_sin ops (num_div ops dLat (Fin 2)))
                  (Math_sin ops (num_div ops dLat (Fin 2))))
                (num_mul ops
                  (num_mul ops
                    (num_mul ops (Math_cos ops (toRadians ops lat1))
                      (Math_cos ops (toRadians ops lat2)))
                    (Math_sin ops (num_div ops dLon (Fin 2))))
                  (Math_sin ops (num_div ops dLon (Fin 2))));
          c = num_mul ops (Fin 2)
                (Math_atan2 ops (Math_sqrt ops a) (Math_sqrt ops (num_sub ops (Fin 1) a)))
      in num_mul ops R c)"

section \<open>Distance matrix\<close>

text \<open>
  The matrix starts as \<open>n\<close> rows of \<open>n\<close> zeros and the two nested loops assign every
  entry once, so the result is the table of the assigned values.
\<close>

definition calculateDistanceMatrix :: "float_ops \<Rightarrow> Location list \<Rightarrow> number list list" where
  "calculateDistanceMatrix ops locations =
     (let n = length locations
      in map (\<lambda>i. map (\<lambda>j.
            if i = j then Fin 0
            else calculateDistance ops
                   (latitude (locations ! i)) (longitude (locations ! i))
                   (latitude (locations ! j)) (longitude (locations ! j)))
          [0..<n]) [0..<n])"

section \<open>Optimization algorithm\<close>

text \<open>
  The local variables of the greedy loop: the set \<open>visited\<close> of indices, the array
  \<open>sequence\<close> of indices in visiting order, \<open>currentIndex\<close> and the running
  \<open>totalDistance\<close> (the two names shared with the result carry a prime).
\<close>

record tracking =
  visited :: "nat set"
  sequence' :: "nat list"
  currentIndex :: nat
  totalDistance' :: number

text \<open>
  One round of the inner \<^verbatim>\<open>for\<close> loop (lines 145-153), on the pair
  \<open>(nearestIndex, nearestDistance)\<close>; \<open>None\<close> stands for the index \<open>-1\<close>.
\<close>

definition scanStep ::
  "number list list \<Rightarrow> nat set \<Rightarrow> nat \<Rightarrow> nat option \<times> number \<Rightarrow> nat \<Rightarrow> nat option \<times> number" where
  "scanStep distanceMatrix vis cur acc i =
     (if i \<notin> vis then
        (let distance = distanceMatrix ! cur ! i
         in if num_lt distance (snd acc) then (Some i, distance) else acc)
      else acc)"

definition findNearest ::
  "number list list \<Rightarrow> nat \<Rightarrow> nat set \<Rightarrow> nat \<Rightarrow> nat option \<times> number" where
  "findNearest distanceMatrix n vis cur =
     foldl (scanStep distanceMatrix vis cur) (None, PosInf) [0..<n]"

text \<open>The body of the \<^verbatim>\<open>while\<close> loop (lines 141-164).\<close>

definition loopBody :: "float_ops \<Rightarrow> number list list \<Rightarrow> nat \<Rightarrow> tracking \<Rightarrow> tracking" where
  "loopBody ops distanceMatrix n st =
     (case findNearest distanceMatrix n (visited st) (currentIndex st) of
        (None, nearestDistance) \<Rightarrow> st
      | (Some nearestIndex, nearestDistance) \<Rightarrow>
          st\<lparr>visited := insert nearestIndex (visited st),
             sequence' := sequence' st @ [nearestIndex],
             totalDistance' := num_add ops (totalDistance' st) nearestDistance,
             currentIndex := nearestIndex\<rparr>)"

text \<open>
  \<^verbatim>\<open>while (visited.size < n)\<close>. The loop has no other exit, so a run that never
  leaves it is the value \<open>None\<close>.
\<close>

partial_function (option) loop ::
  "float_ops \<Rightarrow> number list list \<Rightarrow> nat \<Rightarrow> tracking \<Rightarrow> tracking option" where
  "loop ops distanceMatrix n st =
     (if card (visited st) < n then loop ops distanceMatrix n (loopBody ops distanceMatrix n st)
      else Some st)"

definition calculateEstimatedDuration :: "float_ops \<Rightarrow> number \<Rightarrow> number \<Rightarrow> number" where
  "calculateEstimatedDuration ops totalDist numStops =
     (let AVG_SPEED_KMH = Fin 40;
          SERVICE_TIME_MIN = Fin 5;
          travelTime = num_mul ops (num_div ops totalDist AVG_SPEED_KMH) (Fin 60);
          serviceTime = num_mul ops numStops SERVICE_TIME_MIN
      in Math_round (num_add ops travelTime serviceTime))"

definition initialTracking :: tracking where
  "initialTracking = \<lparr>visited = {0}, sequence' = [0], currentIndex = 0, totalDistance' = Fin 0\<rparr>"

definition optimizeRouteNearestNeighbor :: "float_ops \<Rightarrow> Location list \<Rightarrow> OptimizedRoute option" where
  "optimizeRouteNearestNeighbor ops locations =
     (if length locations = 0 then
        Some \<lparr>sequence = [], totalDistance = Fin 0, estimatedDuration = Fin 0,
              algorithm = ''nearest_neighbor''\<rparr>
      else if length locations = 1 then
        Some \<lparr>sequence = [id' (locations ! 0)], totalDistance = Fin 0,
              estimatedDuration = Fin 10, algorithm = ''nearest_neighbor''\<rparr>
      else
        (let distanceMatrix = calculateDistanceMatrix ops locations;
             n = length locations
         in case loop ops distanceMatrix n initialTracking of
              None \<Rightarrow> None
            | Some st \<Rightarrow>
                Some \<lparr>sequence = map (\<lambda>index. id' (locations ! index)) (sequence' st),
                      totalDistance =
                        num_div ops (Math_round (num_mul ops (totalDistance' st) (Fin 100)))
                          (Fin 100),
                      estimatedDuration =
                        calculateEstimatedDuration ops (totalDistance' st) (Fin (real n)),
                      algorithm = ''nearest_neighbor''\<rparr>))"

section \<open>Helper functions\<close>

text \<open>
  \<^verbatim>\<open>new Map(locations.map((loc) => [loc.id, loc]))\<close>: the entries are inserted in
  order, a later entry replacing an earlier one with the same key.
\<close>

definition locationMap :: "Location list \<Rightarrow> (string \<rightharpoonup> Location)" where
  "locationMap locations = foldl (\<lambda>m loc. m(id' loc \<mapsto> loc)) Map.empty locations"

text \<open>One round of the loop of \<^verbatim>\<open>calculateRouteDistance\<close> (lines 223-235).\<close>

definition routeStep ::
  "float_ops \<Rightarrow> (string \<rightharpoonup> Location) \<Rightarrow> string list \<Rightarrow> number \<Rightarrow> nat \<Rightarrow> number" where
  "routeStep ops locMap ids totalDist i =
     (case (locMap (ids ! i), locMap (ids ! (i + 1))) of
        (Some loc1, Some loc2) \<Rightarrow>
          num_add ops totalDist
            (calculateDistance ops
               (latitude loc1) (longitude loc1) (latitude loc2) (longitude loc2))
      | _ \<Rightarrow> totalDist)"

definition calculateRouteDistance :: "float_ops \<Rightarrow> Location list \<Rightarrow> string list \<Rightarrow> number" where
  "calculateRouteDistance ops locations ids =
     (if length ids \<le> 1 then Fin 0
      else
        (let totalDist =
               foldl (routeStep ops (locationMap locations) ids) (Fin 0) [0..<length ids - 1]
         in num_div ops (Math_round (num_mul ops totalDist (Fin 100))) (Fin 100)))"

section \<open>Double arithmetic\<close>

subsection \<open>The results before rounding\<close>

text \<open>
  The exact value of each operation on finite numbers, with the rules of the language
  for NaN and the infinities. This is not what the machine returns: double arithmetic,
  below, rounds these values.
\<close>

fun exact_add :: "number \<Rightarrow> number \<Rightarrow> number" where
  "exact_add (Fin a) (Fin b) = Fin (a + b)"
| "exact_add NaN b = NaN"
| "exact_add a NaN = NaN"
| "exact_add PosInf NegInf = NaN"
| "exact_add NegInf PosInf = NaN"
| "exact_add PosInf b = PosInf"
| "exact_add a PosInf = PosInf"
| "exact_add NegInf b = NegInf"
| "exact_add a NegInf = NegInf"

definition exact_sub :: "number \<Rightarrow> number \<Rightarrow> number" where
  "exact_sub a b = exact_add a (num_neg b)"

fun exact_mul :: "number \<Rightarrow> number \<Rightarrow> number" where
  "exact_mul (Fin a) (Fin b) = Fin (a * b)"
| "exact_mul NaN b = NaN"
| "exact_mul a NaN = NaN"
| "exact_mul PosInf (Fin b) = (if b = 0 then NaN else if 0 < b then PosInf else NegInf)"
| "exact_mul NegInf (Fin b) = (if b = 0 then NaN else if 0 < b then NegInf else PosInf)"
| "exact_mul (Fin a) PosInf = (if a = 0 then NaN else if 0 < a then PosInf else NegInf)"
| "exact_mul (Fin a) NegInf = (if a = 0 then NaN else if 0 < a then NegInf else PosInf)"
| "exact_mul PosInf PosInf = PosInf"
| "exact_mul PosInf NegInf = NegInf"
| "exact_mul NegInf PosInf = NegInf"
| "exact_mul NegInf NegInf = PosInf"

fun exact_div :: "number \<Rightarrow> number \<Rightarrow> number" where
  "exact_div (Fin a) (Fin b) =
     (if b = 0 then (if a = 0 then NaN else if 0 < a then PosInf else NegInf)
      else Fin (a / b))"
| "exact_div NaN b = NaN"
| "exact_div a NaN = NaN"
| "exact_div (Fin a) PosInf = Fin 0"
| "exact_div (Fin a) NegInf = Fin 0"
| "exact_div PosInf (Fin b) = (if 0 \<le> b then PosInf else NegInf)"
| "exact_div NegInf (Fin b) = (if 0 \<le> b then NegInf else PosInf)"
| "exact_div PosInf b = NaN"
| "exact_div NegInf b = NaN"

fun exact_sin :: "number \<Rightarrow> number" where
  "exact_sin (Fin x) = Fin (sin x)"
| "exact_sin x = NaN"

fun exact_cos :: "number \<Rightarrow> number" where
  "exact_cos (Fin x) = Fin (cos x)"
| "exact_cos x = NaN"

fun exact_sqrt :: "number \<Rightarrow> number" where
  "exact_sqrt (Fin x) = (if x < 0 then NaN else Fin (sqrt x))"
| "exact_sqrt PosInf = PosInf"
| "exact_sqrt x = NaN"

text \<open>The angle of the point \<open>(x, y)\<close>, in \<open>(-pi, pi]\<close>, for finite arguments.\<close>

definition atan2_real :: "real \<Rightarrow> real \<Rightarrow> real" where
  "atan2_real y x =
     (if 0 < x then arctan (y / x)
      else if x < 0 then (if 0 \<le> y then arctan (y / x) + pi else arctan (y / x) - pi)
      else if 0 < y then pi / 2
      else if y < 0 then - (pi / 2)
      else 0)"

fun exact_atan2 :: "number \<Rightarrow> number \<Rightarrow> number" where
  "exact_atan2 (Fin y) (Fin x) = Fin (atan2_real y x)"
| "exact_atan2 NaN x = NaN"
| "exact_atan2 y NaN = NaN"
| "exact_atan2 (Fin y) PosInf = Fin 0"
| "exact_atan2 (Fin y) NegInf = (if 0 \<le> y then Fin pi else Fin (- pi))"
| "exact_atan2 PosInf (Fin x) = Fin (pi / 2)"
| "exact_atan2 NegInf (Fin x) = Fin (- (pi / 2))"
| "exact_atan2 PosInf PosInf = Fin (pi / 4)"
| "exact_atan2 PosInf NegInf = Fin (3 * pi / 4)"
| "exact_atan2 NegInf PosInf = Fin (- (pi / 4))"
| "exact_atan2 NegInf NegInf = Fin (- (3 * pi / 4))"

definition exactOps :: float_ops where
  "exactOps =
     \<lparr>num_add = exact_add, num_sub = exact_sub, num_mul = exact_mul, num_div = exact_div,
      Math_sin = exact_sin, Math_cos = exact_cos, Math_sqrt = exact_sqrt,
      Math_atan2 = exact_atan2, Math_PI = Fin pi\<rparr>"

subsection \<open>Rounding to a double\<close>

text \<open>
  The language fixes \<^verbatim>\<open>+ - * /\<close> on numbers: the exact result rounded to the nearest
  double, a tie going to the even significand, and to an infinity from \<open>2 ^ 1024\<close> on.
  \<open>binade x\<close> is the exponent of the double next to \<open>x\<close>, whose significand has 53
  bits; the exponent stops at \<open>-1022\<close>, below which the doubles are evenly spaced.
\<close>

definition roundEven :: "real \<Rightarrow> int" where
  "roundEven q =
     (let f = \<lfloor>q\<rfloor>
      in if q - of_int f < 1 / 2 then f
         else if 1 / 2 < q - of_int f then f + 1
         else if even f then f else f + 1)"

definition binade :: "real \<Rightarrow> int" where
  "binade x = max \<lfloor>log 2 \<bar>x\<bar>\<rfloor> (- 1022)"

definition rnd :: "real \<Rightarrow> number" where
  "rnd x =
     (if x = 0 then Fin 0
      else
        (let u = 2 powi (binade x - 52);
             y = of_int (roundEven (x / u)) * u
         in if 2 ^ 1024 \<le> \<bar>y\<bar> then (if 0 < x then PosInf else NegInf) else Fin y))"

fun rnd_number :: "number \<Rightarrow> number" where
  "rnd_number (Fin x) = rnd x"
| "rnd_number x = x"

text \<open>
  The language leaves the precision of \<^verbatim>\<open>Math.sin\<close>, \<^verbatim>\<open>Math.cos\<close>,
  \<^verbatim>\<open>Math.sqrt\<close> and \<^verbatim>\<open>Math.atan2\<close> to the engine. In \<open>doubleOps\<close> they return
  the exact value rounded. The evaluations below call them only where the language
  fixes the result or every engine is exact: at an infinity, where the sine is NaN, and
  at \<open>sin 0\<close>, \<open>cos 0\<close>, \<open>sqrt 0\<close>, \<open>sqrt 1\<close> and \<open>atan2 0 1\<close>.
\<close>

definition doubleOps :: float_ops where
  "doubleOps =
     \<lparr>num_add = (\<lambda>a b. rnd_number (exact_add a b)),
      num_sub = (\<lambda>a b. rnd_number (exact_sub a b)),
      num_mul = (\<lambda>a b. rnd_number (exact_mul a b)),
      num_div = (\<lambda>a b. rnd_number (exact_div a b)),
      Math_sin = (\<lambda>x. rnd_number (exact_sin x)),
      Math_cos = (\<lambda>x. rnd_number (exact_cos x)),
      Math_sqrt = (\<lambda>x. rnd_number (exact_sqrt x)),
      Math_atan2 = (\<lambda>y x. rnd_number (exact_atan2 y x)),
      Math_PI = rnd pi\<rparr>"

section \<open>Notions used to state the properties\<close>

text \<open>\<^verbatim>\<open>Math.round(x * 100) / 100\<close>, as both exported functions write it.\<close>

definition round2 :: "float_ops \<Rightarrow> number \<Rightarrow> number" where
  "round2 ops x = num_div ops (Math_round (num_mul ops x (Fin 100))) (Fin 100)"

text \<open>
  \<^verbatim>\<open>0 <= v\<close>: a finite value that is not negative, or the positive infinity. And a
  number that is NaN or such a value.
\<close>

fun nonneg :: "number \<Rightarrow> bool" where
  "nonneg (Fin x) = (0 \<le> x)"
| "nonneg PosInf = True"
| "nonneg x = False"

definition nonnegOrNaN :: "number \<Rightarrow> bool" where
  "nonnegOrNaN v = (v = NaN \<or> nonneg v)"

text \<open>
  Properties of an arithmetic that the sign of a result rests on: rounding keeps the
  sign, the square root is never negative, and the angle of a point with non-negative
  coordinates is not negative. \<open>doubleOps\<close> has them (\<open>signPreserving_double\<close>).
\<close>

definition signPreserving :: "float_ops \<Rightarrow> bool" where
  "signPreserving ops =
     ((\<forall>a b. nonneg a \<and> nonneg b \<longrightarrow> nonneg (num_add ops a b)) \<and>
      (\<forall>a c. nonneg a \<and> 0 < c \<longrightarrow> nonneg (num_mul ops a (Fin c))) \<and>
      (\<forall>a c. nonneg a \<and> 0 < c \<longrightarrow> nonneg (num_div ops a (Fin c))) \<and>
      (\<forall>c v. 0 < c \<and> nonnegOrNaN v \<longrightarrow> nonnegOrNaN (num_mul ops (Fin c) v)) \<and>
      (\<forall>x. nonnegOrNaN (Math_sqrt ops x)) \<and>
      (\<forall>y x. nonnegOrNaN y \<and> nonnegOrNaN x \<longrightarrow> nonnegOrNaN (Math_atan2 ops y x)))"

text \<open>
  Properties of an arithmetic that the symmetry of the distance rests on: rounding
  commutes with negation, multiplication is commutative and the sine is odd.
  \<open>doubleOps\<close> has them (\<open>symmetricOps_double\<close>).
\<close>

definition symmetricOps :: "float_ops \<Rightarrow> bool" where
  "symmetricOps ops =
     ((\<forall>a b. num_sub ops b a = num_neg (num_sub ops a b)) \<and>
      (\<forall>a b. num_mul ops (num_neg a) b = num_neg (num_mul ops a b)) \<and>
      (\<forall>a b. num_mul ops a b = num_mul ops b a) \<and>
      (\<forall>a b. num_div ops (num_neg a) b = num_neg (num_div ops a b)) \<and>
      (\<forall>a. Math_sin ops (num_neg a) = num_neg (Math_sin ops a)))"

text \<open>
  The distance between the stops at two indices, and the sum of the distances between the
  consecutive stops of a visiting order, added up from zero in that order.
\<close>

definition distanceBetween :: "float_ops \<Rightarrow> Location list \<Rightarrow> nat \<Rightarrow> nat \<Rightarrow> number" where
  "distanceBetween ops locations i j =
     calculateDistance ops (latitude (locations ! i)) (longitude (locations ! i))
       (latitude (locations ! j)) (longitude (locations ! j))"

definition pathDistance :: "float_ops \<Rightarrow> Location list \<Rightarrow> nat list \<Rightarrow> number" where
  "pathDistance ops locations idxs =
     foldl (num_add ops) (Fin 0)
       (map (\<lambda>(i, j). distanceBetween ops locations i j) (zip idxs (tl idxs)))"

text \<open>
  Every distance between two different stops of the list is below Infinity, that is
  neither NaN nor the positive infinity.
\<close>

definition reachable :: "float_ops \<Rightarrow> Location list \<Rightarrow> bool" where
  "reachable ops locs =
     (\<forall>i<length locs. \<forall>j<length locs.
        i \<noteq> j \<longrightarrow> num_lt (distanceBetween ops locs i j) PosInf)"

text \<open>
  What holds of \<open>(nearestIndex, nearestDistance)\<close> after the scan has looked at the
  indices below \<open>m\<close>: no unvisited index below \<open>m\<close> is strictly nearer than
  \<open>nearestDistance\<close>, which is still infinite when nothing was selected and is otherwise
  the distance of the selected index, an unvisited one with no unvisited index before it
  at the same distance.
\<close>

definition scanInv :: "number list list \<Rightarrow> nat set \<Rightarrow> nat \<Rightarrow> nat \<Rightarrow> nat option \<times> number \<Rightarrow> bool" where
  "scanInv M vis cur m acc =
     ((\<forall>i<m. i \<notin> vis \<longrightarrow> \<not> num_lt (M ! cur ! i) (snd acc)) \<and>
      (case fst acc of
         None \<Rightarrow> snd acc = PosInf
       | Some k \<Rightarrow> k < m \<and> k \<notin> vis \<and> snd acc = M ! cur ! k \<and> num_lt (snd acc) PosInf \<and>
           (\<forall>i<k. i \<notin> vis \<longrightarrow> M ! cur ! i \<noteq> snd acc)))"

text \<open>
  The invariant of the \<^verbatim>\<open>while\<close> loop: the visited set is the set of the
  visiting order, which has no repetition, starts at index 0 and ends at the current
  index; the running total is the distance along it, and it is not negative when the
  arithmetic keeps signs.
\<close>

definition trackInv :: "float_ops \<Rightarrow> Location list \<Rightarrow> tracking \<Rightarrow> bool" where
  "trackInv ops locs st =
     (visited st = set (sequence' st) \<and> distinct (sequence' st) \<and>
      set (sequence' st) \<subseteq> {0..<length locs} \<and> sequence' st \<noteq> [] \<and>
      hd (sequence' st) = 0 \<and> currentIndex st = last (sequence' st) \<and>
      totalDistance' st = pathDistance ops locs (sequence' st) \<and>
      (signPreserving ops \<longrightarrow> nonneg (totalDistance' st)))"

text \<open>
  The \<^verbatim>\<open>while\<close> loop started in \<open>st\<close> makes exactly \<open>k\<close> rounds: its condition
  holds before each of the first \<open>k\<close> rounds and fails after them.
\<close>

definition loopIterations ::
  "float_ops \<Rightarrow> number list list \<Rightarrow> nat \<Rightarrow> tracking \<Rightarrow> nat \<Rightarrow> bool" where
  "loopIterations ops M n st k =
     ((\<forall>j<k. card (visited ((loopBody ops M n ^^ j) st)) < n) \<and>
      \<not> card (visited ((loopBody ops M n ^^ k) st)) < n)"

text \<open>
  A pair of identifiers that both name a stop of the list, and the distance between the
  two stops the location map gives for them.
\<close>

definition hopKnown :: "Location list \<Rightarrow> string \<times> string \<Rightarrow> bool" where
  "hopKnown locs = (\<lambda>(a, b). a \<in> id' ` set locs \<and> b \<in> id' ` set locs)"

definition hopDistance :: "float_ops \<Rightarrow> Location list \<Rightarrow> string \<times> string \<Rightarrow> number" where
  "hopDistance ops locs =
     (\<lambda>(a, b). let loc1 = the (locationMap locs a); loc2 = the (locationMap locs b)
              in calculateDistance ops
                   (latitude loc1) (longitude loc1) (latitude loc2) (longitude loc2))"

text \<open>
  Concrete stops for the checks at explicit inputs: three stops at the same place, a
  fourth one a degree to the east, and two stops whose latitudes are finite doubles so
  far apart that their difference overflows. Then a distance table in which stops 2 and
  3 are equally far from stop 0.
\<close>

definition stopA :: Location where
  "stopA = \<lparr>id' = ''A'', orderNumber = ''ORD-A'', address = ''Depot'',
             latitude = Fin 0, longitude = Fin 0\<rparr>"

definition stopD :: Location where
  "stopD = \<lparr>id' = ''D'', orderNumber = ''ORD-D'', address = ''Depot, first floor'',
             latitude = Fin 0, longitude = Fin 0\<rparr>"

definition stopE :: Location where
  "stopE = \<lparr>id' = ''E'', orderNumber = ''ORD-E'', address = ''Depot, second floor'',
             latitude = Fin 0, longitude = Fin 0\<rparr>"

definition stopB :: Location where
  "stopB = \<lparr>id' = ''B'', orderNumber = ''ORD-B'', address = ''East'',
             latitude = Fin 0, longitude = Fin 1\<rparr>"

definition huge :: real where
  "huge = 2 ^ 1023"

definition stopHigh :: Location where
  "stopHigh = \<lparr>id' = ''H'', orderNumber = ''ORD-H'', address = ''High'',
                latitude = Fin huge, longitude = Fin 0\<rparr>"

definition stopLow :: Location where
  "stopLow = \<lparr>id' = ''L'', orderNumber = ''ORD-L'', address = ''Low'',
               latitude = Fin (- huge), longitude = Fin 0\<rparr>"

definition tieMatrix :: "number list list" where
  "tieMatrix = [[Fin 0, Fin 5, Fin 3, Fin 3],
                [Fin 5, Fin 0, Fin 4, Fin 4],
                [Fin 3, Fin 4, Fin 0, Fin 0],
                [Fin 3, Fin 4, Fin 0, Fin 0]]"

section \<open>Auxiliary facts\<close>

subsection \<open>Comparison\<close>

lemma num_lt_irrefl: "\<not> num_lt a a"
  by (cases a) simp_all

lemma num_lt_trans: "num_lt a b \<Longrightarrow> num_lt b c \<Longrightarrow> num_lt a c"
  by (cases a; cases b; cases c) simp_all

lemma num_lt_PosInf: "num_lt a b \<Longrightarrow> num_lt a PosInf"
  by (cases a; cases b) simp_all

lemma nonneg_le: "nonneg v \<longleftrightarrow> num_le (Fin 0) v"
  by (cases v) (auto simp: num_le_def)

lemma nonnegOrNaN_lt: "nonnegOrNaN d \<Longrightarrow> num_lt d b \<Longrightarrow> nonneg d"
  by (cases d) (simp_all add: nonnegOrNaN_def)

lemma Math_round_nonneg: "nonneg v \<Longrightarrow> nonneg (Math_round v)"
  by (cases v) simp_all


subsection \<open>The while loop\<close>

lemma loop_rule:
  assumes run: "loop ops M n st = Some st'"
    and init: "P st"
    and step: "\<And>s. P s \<Longrightarrow> card (visited s) < n \<Longrightarrow> P (loopBody ops M n s)"
  shows "P st' \<and> \<not> card (visited st') < n"
proof -
  have "ops' = ops \<longrightarrow> M' = M \<longrightarrow> n' = n \<longrightarrow> P s \<longrightarrow> P y \<and> \<not> card (visited y) < n"
    if "loop ops' M' n' s = Some y" for ops' M' n' s y
  proof (rule loop.raw_induct[where P = "\<lambda>ops' M' n' s y.
      ops' = ops \<longrightarrow> M' = M \<longrightarrow> n' = n \<longrightarrow> P s \<longrightarrow> P y \<and> \<not> card (visited y) < n", OF _ that])
    fix lp :: "float_ops \<Rightarrow> number list list \<Rightarrow> nat \<Rightarrow> tracking \<Rightarrow> tracking option"
      and ops' M' n' s y
    assume ih: "\<And>ops' M' n' s y. lp ops' M' n' s = Some y \<Longrightarrow>
                 ops' = ops \<longrightarrow> M' = M \<longrightarrow> n' = n \<longrightarrow> P s \<longrightarrow> P y \<and> \<not> card (visited y) < n"
      and eq: "(if card (visited s) < n' then lp ops' M' n' (loopBody ops' M' n' s) else Some s)
                 = Some y"
    show "ops' = ops \<longrightarrow> M' = M \<longrightarrow> n' = n \<longrightarrow> P s \<longrightarrow> P y \<and> \<not> card (visited y) < n"
    proof (intro impI)
      assume o: "ops' = ops" and M: "M' = M" and n: "n' = n" and P: "P s"
      show "P y \<and> \<not> card (visited y) < n"
      proof (cases "card (visited s) < n")
        case True
        with eq o M n have "lp ops M n (loopBody ops M n s) = Some y" by simp
        from ih[OF this] step[OF P True] show ?thesis by simp
      next
        case False
        with eq n have "y = s" by simp
        with P False show ?thesis by simp
      qed
    qed
  qed
  from this[OF run] init show ?thesis by simp
qed

lemma loop_stuck:
  assumes "card (visited st) < n" "loopBody ops M n st = st"
  shows "loop ops M n st = None"
proof (cases "loop ops M n st")
  case None
  then show ?thesis .
next
  case (Some y)
  have "y = st \<and> \<not> card (visited y) < n"
    by (rule loop_rule[where P = "\<lambda>s. s = st", OF Some]) (simp_all add: assms(2))
  with assms(1) show ?thesis by blast
qed

lemma loop_unfold_funpow:
  "(\<forall>j<k. card (visited ((loopBody ops M n ^^ j) st)) < n) \<Longrightarrow>
   loop ops M n st = loop ops M n ((loopBody ops M n ^^ k) st)"
proof (induction k)
  case 0
  show ?case by simp
next
  case (Suc k)
  then have "loop ops M n st = loop ops M n ((loopBody ops M n ^^ k) st)" by simp
  also have "\<dots> = loop ops M n (loopBody ops M n ((loopBody ops M n ^^ k) st))"
    using Suc.prems by (subst loop.simps) simp
  finally show ?case by simp
qed

lemma loopIterations_loop:
  "loopIterations ops M n st k \<Longrightarrow> loop ops M n st = Some ((loopBody ops M n ^^ k) st)"
proof -
  assume it: "loopIterations ops M n st k"
  then have "loop ops M n st = loop ops M n ((loopBody ops M n ^^ k) st)"
    by (intro loop_unfold_funpow) (simp add: loopIterations_def)
  also have "\<dots> = Some ((loopBody ops M n ^^ k) st)"
    using it by (subst loop.simps) (simp add: loopIterations_def)
  finally show ?thesis .
qed

lemma loopIterations_unique:
  "loopIterations ops M n st k \<Longrightarrow> loopIterations ops M n st k' \<Longrightarrow> k = k'"
  unfolding loopIterations_def by (metis nat_neq_iff)

subsection \<open>The scan\<close>

lemma scanInv_step:
  assumes "scanInv M vis cur m acc"
  shows "scanInv M vis cur (Suc m) (scanStep M vis cur acc m)"
proof (cases "m \<notin> vis \<and> num_lt (M ! cur ! m) (snd acc)")
  case True
  have "\<not> num_lt (M ! cur ! i) (M ! cur ! m)" if "i < Suc m" "i \<notin> vis" for i
  proof (cases "i = m")
    case True
    then show ?thesis by (simp add: num_lt_irrefl)
  next
    case False
    with that have "\<not> num_lt (M ! cur ! i) (snd acc)"
      using assms by (simp add: scanInv_def)
    with True show ?thesis using num_lt_trans by blast
  qed
  moreover have "M ! cur ! i \<noteq> M ! cur ! m" if "i < m" "i \<notin> vis" for i
    using that assms True by (auto simp: scanInv_def)
  moreover have "num_lt (M ! cur ! m) PosInf"
    using True num_lt_PosInf by blast
  ultimately show ?thesis
    using True by (simp add: scanInv_def scanStep_def Let_def)
next
  case False
  then have "scanStep M vis cur acc m = acc"
    by (auto simp: scanStep_def Let_def)
  moreover have "\<not> num_lt (M ! cur ! i) (snd acc)" if "i < Suc m" "i \<notin> vis" for i
    using that assms False by (cases "i = m") (auto simp: scanInv_def)
  ultimately show ?thesis
    using assms by (auto simp: scanInv_def split: option.splits)
qed

lemma scanInv_foldl: "scanInv M vis cur m (foldl (scanStep M vis cur) (None, PosInf) [0..<m])"
proof (induction m)
  case 0
  show ?case by (simp add: scanInv_def)
next
  case (Suc m)
  then show ?case by (simp add: scanInv_step)
qed

lemma findNearest_inv: "scanInv M vis cur n (findNearest M n vis cur)"
  unfolding findNearest_def by (rule scanInv_foldl)

lemma findNearest_Some:
  assumes "findNearest M n vis cur = (Some k, d)"
  shows "k < n" "k \<notin> vis" "d = M ! cur ! k" "num_lt d PosInf"
    "\<And>i. i < n \<Longrightarrow> i \<notin> vis \<Longrightarrow> \<not> num_lt (M ! cur ! i) d"
    "\<And>i. i < k \<Longrightarrow> i \<notin> vis \<Longrightarrow> M ! cur ! i \<noteq> d"
  using findNearest_inv[of M vis cur n] assms by (auto simp: scanInv_def)

lemma findNearest_None:
  assumes "findNearest M n vis cur = (None, d)"
  shows "d = PosInf" "\<And>i. i < n \<Longrightarrow> i \<notin> vis \<Longrightarrow> \<not> num_lt (M ! cur ! i) PosInf"
  using findNearest_inv[of M vis cur n] assms by (auto simp: scanInv_def)

lemma findNearest_no_candidate:
  assumes "\<And>i. i < n \<Longrightarrow> i \<notin> vis \<Longrightarrow> \<not> num_lt (M ! cur ! i) PosInf"
  shows "findNearest M n vis cur = (None, PosInf)"
proof -
  obtain ri d where f: "findNearest M n vis cur = (ri, d)"
    by (cases "findNearest M n vis cur")
  show ?thesis
  proof (cases ri)
    case None
    with f findNearest_None(1)[of M n vis cur d] show ?thesis by simp
  next
    case (Some k)
    from findNearest_Some[OF f[unfolded Some]] assms[of k] show ?thesis by simp
  qed
qed

lemma loopBody_None:
  "findNearest M n (visited st) (currentIndex st) = (None, d) \<Longrightarrow> loopBody ops M n st = st"
  by (simp add: loopBody_def)

lemma loopBody_Some:
  "findNearest M n (visited st) (currentIndex st) = (Some k, d) \<Longrightarrow>
   loopBody ops M n st =
     st\<lparr>visited := insert k (visited st), sequence' := sequence' st @ [k],
        totalDistance' := num_add ops (totalDistance' st) d, currentIndex := k\<rparr>"
  by (simp add: loopBody_def)

subsection \<open>The distance matrix and the distance of a path\<close>

lemma matrix_length: "length (calculateDistanceMatrix ops locs) = length locs"
  by (simp add: calculateDistanceMatrix_def Let_def)

lemma matrix_row_length:
  "i < length locs \<Longrightarrow> length (calculateDistanceMatrix ops locs ! i) = length locs"
  by (simp add: calculateDistanceMatrix_def Let_def)

lemma matrix_nth:
  "i < length locs \<Longrightarrow> j < length locs \<Longrightarrow>
   calculateDistanceMatrix ops locs ! i ! j =
     (if i = j then Fin 0 else distanceBetween ops locs i j)"
  by (simp add: calculateDistanceMatrix_def distanceBetween_def Let_def)

lemma zip_tl_snoc: "xs \<noteq> [] \<Longrightarrow> zip (xs @ [k]) (tl (xs @ [k])) = zip xs (tl xs) @ [(last xs, k)]"
proof (induction xs rule: induct_list012)
  case 1
  then show ?case by simp
next
  case (2 x)
  show ?case by simp
next
  case (3 x y zs)
  then show ?case by simp
qed

lemma pathDistance_snoc:
  "xs \<noteq> [] \<Longrightarrow>
   pathDistance ops locs (xs @ [k]) =
     num_add ops (pathDistance ops locs xs) (distanceBetween ops locs (last xs) k)"
  unfolding pathDistance_def by (subst zip_tl_snoc) simp_all

lemma calculateDistance_sign:
  "signPreserving ops \<Longrightarrow> nonnegOrNaN (calculateDistance ops lat1 lon1 lat2 lon2)"
  unfolding calculateDistance_def Let_def signPreserving_def by simp


subsection \<open>The invariant of the loop\<close>

lemma trackInv_initial: "locs \<noteq> [] \<Longrightarrow> trackInv ops locs initialTracking"
  by (simp add: trackInv_def initialTracking_def pathDistance_def)

lemma trackInv_finite: "trackInv ops locs st \<Longrightarrow> finite (visited st)"
  by (simp add: trackInv_def)

lemma trackInv_current:
  assumes "trackInv ops locs st"
  shows "currentIndex st \<in> visited st" "currentIndex st < length locs"
proof -
  have "last (sequence' st) \<in> set (sequence' st)"
    using assms by (simp add: trackInv_def)
  moreover have "set (sequence' st) \<subseteq> {0..<length locs}" "visited st = set (sequence' st)"
    "currentIndex st = last (sequence' st)"
    using assms by (simp_all add: trackInv_def)
  ultimately show "currentIndex st \<in> visited st" "currentIndex st < length locs"
    by auto
qed

lemma trackInv_loopBody:
  assumes inv: "trackInv ops locs st"
  shows "trackInv ops locs (loopBody ops (calculateDistanceMatrix ops locs) (length locs) st)"
proof -
  let ?M = "calculateDistanceMatrix ops locs" and ?n = "length locs"
  obtain ri d where f: "findNearest ?M ?n (visited st) (currentIndex st) = (ri, d)"
    by (cases "findNearest ?M ?n (visited st) (currentIndex st)")
  show ?thesis
  proof (cases ri)
    case None
    with f inv show ?thesis by (simp add: loopBody_None)
  next
    case (Some k)
    note fk = f[unfolded Some]
    have k: "k < ?n" "k \<notin> visited st" "d = ?M ! currentIndex st ! k" "num_lt d PosInf"
      using findNearest_Some[OF fk] by simp_all
    note cur = trackInv_current[OF inv]
    then have ne: "currentIndex st \<noteq> k" using k(2) by auto
    have d: "d = distanceBetween ops locs (last (sequence' st)) k"
      using k(1,3) cur(2) ne inv by (simp add: matrix_nth trackInv_def)
    have sign: "nonneg (num_add ops (totalDistance' st) d)" if sp: "signPreserving ops"
    proof -
      have "nonnegOrNaN d"
        unfolding d distanceBetween_def using sp by (rule calculateDistance_sign)
      then have "nonneg d" using k(4) by (rule nonnegOrNaN_lt)
      moreover have "nonneg (totalDistance' st)" using inv sp unfolding trackInv_def by blast
      ultimately show ?thesis using sp by (simp add: signPreserving_def)
    qed
    have path: "num_add ops (totalDistance' st) d = pathDistance ops locs (sequence' st @ [k])"
      using inv d by (simp add: pathDistance_snoc trackInv_def)
    show ?thesis
      unfolding loopBody_Some[OF fk] trackInv_def
      using inv k(1,2) sign path by (simp add: trackInv_def)
  qed
qed

lemma trackInv_progress:
  assumes inv: "trackInv ops locs st" and rch: "reachable ops locs"
    and lt: "card (visited st) < length locs"
  shows "card (visited (loopBody ops (calculateDistanceMatrix ops locs) (length locs) st)) =
           Suc (card (visited st))"
proof -
  let ?M = "calculateDistanceMatrix ops locs" and ?n = "length locs"
  have sub: "visited st \<subseteq> {0..<?n}" using inv by (simp add: trackInv_def)
  have "visited st \<noteq> {0..<?n}" using lt by auto
  with sub have "\<exists>i. i \<in> {0..<?n} \<and> i \<notin> visited st" by blast
  then obtain i where i: "i < ?n" "i \<notin> visited st" by auto
  note cur = trackInv_current[OF inv]
  with i have ne: "currentIndex st \<noteq> i" by auto
  with i cur have "?M ! currentIndex st ! i = distanceBetween ops locs (currentIndex st) i"
    by (simp add: matrix_nth)
  moreover have "num_lt (distanceBetween ops locs (currentIndex st) i) PosInf"
    using rch cur(2) i(1) ne by (simp add: reachable_def)
  ultimately have reach: "num_lt (?M ! currentIndex st ! i) PosInf" by simp
  obtain ri d where f: "findNearest ?M ?n (visited st) (currentIndex st) = (ri, d)"
    by (cases "findNearest ?M ?n (visited st) (currentIndex st)")
  show ?thesis
  proof (cases ri)
    case None
    with findNearest_None(2)[OF f[unfolded None] i] reach show ?thesis by simp
  next
    case (Some k)
    note fk = f[unfolded Some]
    have "k \<notin> visited st" using findNearest_Some(2)[OF fk] .
    then show ?thesis
      unfolding loopBody_Some[OF fk] using trackInv_finite[OF inv] by simp
  qed
qed

lemma funpow_trackInv:
  assumes "trackInv ops locs st" "reachable ops locs" "card (visited st) + j \<le> length locs"
  shows "trackInv ops locs ((loopBody ops (calculateDistanceMatrix ops locs) (length locs) ^^ j) st) \<and>
         card (visited ((loopBody ops (calculateDistanceMatrix ops locs) (length locs) ^^ j) st)) =
           card (visited st) + j"
  using assms(3)
proof (induction j)
  case 0
  show ?case using assms(1) by simp
next
  case (Suc j)
  then show ?case
    using trackInv_loopBody[of ops locs] trackInv_progress[OF _ assms(2)] by simp
qed

lemma loop_iterations_reachable:
  assumes rch: "reachable ops locs" and n: "locs \<noteq> []"
  shows "loopIterations ops (calculateDistanceMatrix ops locs) (length locs) initialTracking
           (length locs - 1)"
proof -
  have c0: "card (visited initialTracking) = 1" by (simp add: initialTracking_def)
  have len: "1 \<le> length locs" using n by (cases locs) simp_all
  have "card (visited ((loopBody ops (calculateDistanceMatrix ops locs) (length locs) ^^ j)
          initialTracking)) = 1 + j"
    if "j \<le> length locs - 1" for j
    using funpow_trackInv[OF trackInv_initial[OF n] rch, of j] that len c0 by simp
  then show ?thesis
    unfolding loopIterations_def using len by auto
qed

lemma loop_final:
  assumes ne: "locs \<noteq> []"
    and run: "loop ops (calculateDistanceMatrix ops locs) (length locs) initialTracking = Some st"
  shows "trackInv ops locs st" "visited st = {0..<length locs}"
proof -
  have r: "trackInv ops locs st \<and> \<not> card (visited st) < length locs"
    by (rule loop_rule[where P = "trackInv ops locs", OF run trackInv_initial[OF ne]])
      (rule trackInv_loopBody)
  then show "trackInv ops locs st" by simp
  have "visited st \<subseteq> {0..<length locs}" using r by (simp add: trackInv_def)
  then show "visited st = {0..<length locs}"
    using r by (intro card_seteq) simp_all
qed

lemma final_perm:
  assumes "trackInv ops locs st" "visited st = {0..<length locs}"
  shows "mset (sequence' st) = mset [0..<length locs]"
proof -
  have "distinct (sequence' st)" "set (sequence' st) = set [0..<length locs]"
    using assms by (simp_all add: trackInv_def)
  then show ?thesis
    using set_eq_iff_mset_eq_distinct[of "sequence' st" "[0..<length locs]"] by simp
qed

lemma mset_map_indices:
  assumes "mset idxs = mset [0..<length locs]"
  shows "mset (map (\<lambda>i. f (locs ! i)) idxs) = mset (map f locs)"
proof -
  have "mset (map (\<lambda>i. f (locs ! i)) idxs) = image_mset (\<lambda>i. f (locs ! i)) (mset idxs)"
    by (rule mset_map)
  also have "\<dots> = image_mset (\<lambda>i. f (locs ! i)) (mset [0..<length locs])"
    by (simp only: assms)
  also have "\<dots> = mset (map (\<lambda>i. f (locs ! i)) [0..<length locs])"
    by (rule mset_map[symmetric])
  also have "map (\<lambda>i. f (locs ! i)) [0..<length locs] = map f (map (\<lambda>i. locs ! i) [0..<length locs])"
    by (simp only: map_map comp_def)
  also have "\<dots> = map f locs"
    by (simp only: map_nth)
  finally show ?thesis .
qed

lemma mset_indices_length: "mset idxs = mset [0..<n] \<Longrightarrow> length idxs = n"
  using mset_eq_length[of idxs "[0..<n]"] by simp

lemma mset_indices_set: "mset idxs = mset [0..<n] \<Longrightarrow> set idxs \<subseteq> {0..<n}"
  using mset_eq_setD[of idxs "[0..<n]"] by simp

subsection \<open>The result of the optimizer\<close>

lemma optimize_empty:
  "optimizeRouteNearestNeighbor ops [] =
     Some \<lparr>sequence = [], totalDistance = Fin 0, estimatedDuration = Fin 0,
           algorithm = ''nearest_neighbor''\<rparr>"
  by (simp add: optimizeRouteNearestNeighbor_def)

lemma optimize_single:
  "optimizeRouteNearestNeighbor ops [l] =
     Some \<lparr>sequence = [id' l], totalDistance = Fin 0, estimatedDuration = Fin 10,
           algorithm = ''nearest_neighbor''\<rparr>"
  by (simp add: optimizeRouteNearestNeighbor_def)

lemma length_cases:
  obtains "locs = []" | l where "locs = [l]" | "2 \<le> length locs"
proof (cases locs)
  case Nil
  then show ?thesis using that(1) by simp
next
  case (Cons a as)
  then show ?thesis using that(2,3) by (cases as) simp_all
qed

lemma optimize_many:
  "2 \<le> length locs \<Longrightarrow>
   optimizeRouteNearestNeighbor ops locs =
     (case loop ops (calculateDistanceMatrix ops locs) (length locs) initialTracking of
        None \<Rightarrow> None
      | Some st \<Rightarrow>
          Some \<lparr>sequence = map (\<lambda>index. id' (locs ! index)) (sequence' st),
                totalDistance = round2 ops (totalDistance' st),
                estimatedDuration =
                  calculateEstimatedDuration ops (totalDistance' st) (Fin (real (length locs))),
                algorithm = ''nearest_neighbor''\<rparr>)"
proof -
  assume "2 \<le> length locs"
  then have "length locs \<noteq> 0" "length locs \<noteq> 1" by linarith+
  then show ?thesis
    unfolding optimizeRouteNearestNeighbor_def Let_def round2_def by (simp only: if_False)
qed

lemma optimize_result:
  assumes len: "2 \<le> length locs" and res: "optimizeRouteNearestNeighbor ops locs = Some r"
  shows "\<exists>idxs. mset idxs = mset [0..<length locs] \<and> hd idxs = 0 \<and>
           (signPreserving ops \<longrightarrow> nonneg (pathDistance ops locs idxs)) \<and>
           sequence r = map (\<lambda>i. id' (locs ! i)) idxs \<and>
           totalDistance r = round2 ops (pathDistance ops locs idxs) \<and>
           estimatedDuration r =
             calculateEstimatedDuration ops (pathDistance ops locs idxs)
               (Fin (real (length locs))) \<and>
           algorithm r = ''nearest_neighbor''"
proof -
  have ne: "locs \<noteq> []" using len by auto
  from res obtain st where
    run: "loop ops (calculateDistanceMatrix ops locs) (length locs) initialTracking = Some st"
    and r: "r = \<lparr>sequence = map (\<lambda>index. id' (locs ! index)) (sequence' st),
                totalDistance = round2 ops (totalDistance' st),
                estimatedDuration =
                  calculateEstimatedDuration ops (totalDistance' st) (Fin (real (length locs))),
                algorithm = ''nearest_neighbor''\<rparr>"
    unfolding optimize_many[OF len] by (auto split: option.splits)
  note fin = loop_final[OF ne run]
  have t: "totalDistance' st = pathDistance ops locs (sequence' st)"
    and h: "hd (sequence' st) = 0"
    and s: "signPreserving ops \<longrightarrow> nonneg (totalDistance' st)"
    using fin(1) unfolding trackInv_def by blast+
  show ?thesis
    using final_perm[OF fin] h s unfolding r t
    by (intro exI[of _ "sequence' st"]) simp
qed

lemma optimize_total:
  assumes "reachable ops locs"
  shows "\<exists>r. optimizeRouteNearestNeighbor ops locs = Some r"
proof (cases locs rule: length_cases)
  case 1
  then show ?thesis by (simp add: optimize_empty)
next
  case (2 l)
  then show ?thesis by (simp add: optimize_single)
next
  case 3
  then have "locs \<noteq> []" by auto
  from loopIterations_loop[OF loop_iterations_reachable[OF assms this]]
  show ?thesis unfolding optimize_many[OF 3] by simp
qed

lemma optimize_stuck:
  assumes len: "2 \<le> length locs"
    and none: "\<And>j. 0 < j \<Longrightarrow> j < length locs \<Longrightarrow> \<not> num_lt (distanceBetween ops locs 0 j) PosInf"
  shows "optimizeRouteNearestNeighbor ops locs = None"
proof -
  let ?M = "calculateDistanceMatrix ops locs" and ?n = "length locs"
  have "findNearest ?M ?n (visited initialTracking) (currentIndex initialTracking) = (None, PosInf)"
  proof (rule findNearest_no_candidate)
    fix i assume i: "i < ?n" "i \<notin> visited initialTracking"
    then have "0 < i" by (simp add: initialTracking_def)
    moreover have "0 < ?n" using len by linarith
    ultimately have "?M ! 0 ! i = distanceBetween ops locs 0 i"
      using i(1) by (simp add: matrix_nth)
    with none[OF \<open>0 < i\<close> i(1)] show "\<not> num_lt (?M ! currentIndex initialTracking ! i) PosInf"
      by (simp add: initialTracking_def)
  qed
  then have "loopBody ops ?M ?n initialTracking = initialTracking"
    by (rule loopBody_None)
  then have "loop ops ?M ?n initialTracking = None"
    by (rule loop_stuck[rotated]) (use len in \<open>simp add: initialTracking_def\<close>)
  then show ?thesis
    unfolding optimize_many[OF len] by simp
qed

subsection \<open>The distance of a given sequence\<close>

lemma locationMap_foldl:
  "foldl (\<lambda>m loc. m(id' loc \<mapsto> loc)) m0 locs = m0 ++ map_of (rev (map (\<lambda>l. (id' l, l)) locs))"
proof (induction locs arbitrary: m0)
  case Nil
  show ?case by simp
next
  case (Cons l locs)
  have "foldl (\<lambda>m loc. m(id' loc \<mapsto> loc)) m0 (l # locs) =
        foldl (\<lambda>m loc. m(id' loc \<mapsto> loc)) (m0(id' l \<mapsto> l)) locs"
    by (simp only: foldl_Cons)
  also have "\<dots> = m0(id' l \<mapsto> l) ++ map_of (rev (map (\<lambda>l. (id' l, l)) locs))"
    by (rule Cons.IH)
  also have "\<dots> = m0 ++ map_of (rev (map (\<lambda>l. (id' l, l)) (l # locs)))"
    by (rule ext) (simp add: map_add_def split: option.splits)
  finally show ?case .
qed

lemma locationMap_map_of: "locationMap locs = map_of (rev (map (\<lambda>l. (id' l, l)) locs))"
  by (simp add: locationMap_def locationMap_foldl)

lemma locationMap_None: "locationMap locs a = None \<longleftrightarrow> a \<notin> id' ` set locs"
  by (simp add: locationMap_map_of map_of_eq_None_iff image_image)

lemma locationMap_distinct:
  assumes "distinct (map id' locs)" "i < length locs"
  shows "locationMap locs (id' (locs ! i)) = Some (locs ! i)"
proof -
  have "distinct (map fst (rev (map (\<lambda>l. (id' l, l)) locs)))"
    using assms(1) by (simp add: rev_map[symmetric] comp_def)
  moreover have "(id' (locs ! i), locs ! i) \<in> set (rev (map (\<lambda>l. (id' l, l)) locs))"
    using assms(2) by auto
  ultimately show ?thesis
    unfolding locationMap_map_of by (rule map_of_is_SomeI)
qed

lemma routeStep_eval:
  "routeStep ops (locationMap locs) ids acc i =
     (if hopKnown locs (ids ! i, ids ! (i + 1))
      then num_add ops acc (hopDistance ops locs (ids ! i, ids ! (i + 1))) else acc)"
  using locationMap_None[of locs "ids ! i"] locationMap_None[of locs "ids ! (i + 1)"]
  by (auto simp: routeStep_def hopKnown_def hopDistance_def split: option.splits)

lemma zip_tl_nth: "m < length ids - 1 \<Longrightarrow> zip ids (tl ids) ! m = (ids ! m, ids ! (m + 1))"
  by (simp add: nth_tl)

lemma routeFold:
  "m \<le> length ids - 1 \<Longrightarrow>
   foldl (routeStep ops (locationMap locs) ids) acc [0..<m] =
     foldl (num_add ops) acc
       (map (hopDistance ops locs) (filter (hopKnown locs) (take m (zip ids (tl ids)))))"
proof (induction m)
  case 0
  show ?case by simp
next
  case (Suc m)
  then have m: "m < length ids - 1" by simp
  then have "take (Suc m) (zip ids (tl ids)) = take m (zip ids (tl ids)) @ [(ids ! m, ids ! (m + 1))]"
    using zip_tl_nth[OF m] by (simp add: take_Suc_conv_app_nth)
  then show ?case
    using Suc.IH m by (simp add: routeStep_eval)
qed

lemma calculateRouteDistance_hops:
  "calculateRouteDistance ops locs ids =
     (if length ids \<le> 1 then Fin 0
      else round2 ops (foldl (num_add ops) (Fin 0)
             (map (hopDistance ops locs) (filter (hopKnown locs) (zip ids (tl ids))))))"
  by (simp add: calculateRouteDistance_def Let_def round2_def routeFold)

lemma calculateRouteDistance_path:
  assumes d: "distinct (map id' locs)" and sub: "set idxs \<subseteq> {0..<length locs}"
    and len: "2 \<le> length idxs"
  shows "calculateRouteDistance ops locs (map (\<lambda>i. id' (locs ! i)) idxs) =
           round2 ops (pathDistance ops locs idxs)"
proof -
  let ?g = "\<lambda>i. id' (locs ! i)"
  have z: "zip (map ?g idxs) (tl (map ?g idxs)) = map (\<lambda>(i, j). (?g i, ?g j)) (zip idxs (tl idxs))"
    by (simp only: map_tl[symmetric] zip_map_map)
  have tl: "set (tl idxs) \<subseteq> set idxs" by (cases idxs) auto
  have mem: "i < length locs \<and> j < length locs" if "(i, j) \<in> set (zip idxs (tl idxs))" for i j
    using set_zip_leftD[OF that] set_zip_rightD[OF that] sub tl by auto
  have known: "filter (hopKnown locs) (map (\<lambda>(i, j). (?g i, ?g j)) (zip idxs (tl idxs))) =
      map (\<lambda>(i, j). (?g i, ?g j)) (zip idxs (tl idxs))"
    using mem by (auto simp: filter_id_conv hopKnown_def)
  have hop: "map (hopDistance ops locs) (map (\<lambda>(i, j). (?g i, ?g j)) (zip idxs (tl idxs))) =
      map (\<lambda>(i, j). distanceBetween ops locs i j) (zip idxs (tl idxs))"
    using mem by (auto simp: hopDistance_def distanceBetween_def Let_def locationMap_distinct[OF d])
  from len have "\<not> length (map ?g idxs) \<le> 1" by simp
  then show ?thesis
    unfolding calculateRouteDistance_hops z known hop pathDistance_def by simp
qed

subsection \<open>Exact arithmetic\<close>

lemma atan2_real_nonneg: "0 \<le> y \<Longrightarrow> 0 \<le> x \<Longrightarrow> 0 \<le> atan2_real y x"
  by (simp add: atan2_real_def zero_le_arctan_iff)

lemma signPreserving_exact: "signPreserving exactOps"
  unfolding signPreserving_def
proof (intro conjI allI impI)
  fix a b assume "nonneg a \<and> nonneg b"
  then show "nonneg (num_add exactOps a b)"
    by (cases a; cases b) (simp_all add: exactOps_def)
next
  fix a and c :: real assume "nonneg a \<and> 0 < c"
  then show "nonneg (num_mul exactOps a (Fin c))"
    by (cases a) (simp_all add: exactOps_def)
next
  fix a and c :: real assume "nonneg a \<and> 0 < c"
  then show "nonneg (num_div exactOps a (Fin c))"
    by (cases a) (simp_all add: exactOps_def)
next
  fix c :: real and v assume "0 < c \<and> nonnegOrNaN v"
  then show "nonnegOrNaN (num_mul exactOps (Fin c) v)"
    by (cases v) (simp_all add: exactOps_def nonnegOrNaN_def)
next
  fix x show "nonnegOrNaN (Math_sqrt exactOps x)"
    by (cases x) (simp_all add: exactOps_def nonnegOrNaN_def)
next
  fix y x assume "nonnegOrNaN y \<and> nonnegOrNaN x"
  then show "nonnegOrNaN (Math_atan2 exactOps y x)"
    by (cases y; cases x) (simp_all add: exactOps_def nonnegOrNaN_def atan2_real_nonneg)
qed

lemma symmetricOps_exact: "symmetricOps exactOps"
  unfolding symmetricOps_def
proof (intro conjI allI)
  fix a b show "num_sub exactOps b a = num_neg (num_sub exactOps a b)"
    by (cases a; cases b) (simp_all add: exactOps_def exact_sub_def)
next
  fix a b show "num_mul exactOps (num_neg a) b = num_neg (num_mul exactOps a b)"
    by (cases a; cases b) (simp_all add: exactOps_def)
next
  fix a b show "num_mul exactOps a b = num_mul exactOps b a"
    by (cases a; cases b) (simp_all add: exactOps_def mult.commute)
next
  fix a b show "num_div exactOps (num_neg a) b = num_neg (num_div exactOps a b)"
    by (cases a; cases b) (simp_all add: exactOps_def)
next
  fix a show "Math_sin exactOps (num_neg a) = num_neg (Math_sin exactOps a)"
    by (cases a) (simp_all add: exactOps_def)
qed

subsection \<open>Symmetry of the distance\<close>

lemma num_neg_neg: "num_neg (num_neg a) = a"
  by (cases a) simp_all

lemma symmetricOpsD:
  assumes "symmetricOps ops"
  shows "num_sub ops b a = num_neg (num_sub ops a b)"
    and "num_mul ops (num_neg a) b = num_neg (num_mul ops a b)"
    and "num_mul ops a b = num_mul ops b a"
    and "num_div ops (num_neg a) b = num_neg (num_div ops a b)"
    and "Math_sin ops (num_neg a) = num_neg (Math_sin ops a)"
  using assms unfolding symmetricOps_def by blast+

lemma mul_neg_right:
  assumes "symmetricOps ops"
  shows "num_mul ops a (num_neg b) = num_neg (num_mul ops a b)"
proof -
  have "num_mul ops a (num_neg b) = num_mul ops (num_neg b) a"
    by (rule symmetricOpsD(3)[OF assms])
  also have "\<dots> = num_neg (num_mul ops b a)"
    by (rule symmetricOpsD(2)[OF assms])
  also have "num_mul ops b a = num_mul ops a b"
    by (rule symmetricOpsD(3)[OF assms])
  finally show ?thesis .
qed

lemma mul_neg_neg:
  assumes "symmetricOps ops"
  shows "num_mul ops (num_neg a) (num_neg b) = num_mul ops a b"
  by (simp only: symmetricOpsD(2)[OF assms] mul_neg_right[OF assms] num_neg_neg)

lemma mul_mul_neg_neg:
  assumes "symmetricOps ops"
  shows "num_mul ops (num_mul ops p (num_neg t)) (num_neg t) = num_mul ops (num_mul ops p t) t"
  by (simp only: symmetricOpsD(2)[OF assms] mul_neg_right[OF assms] num_neg_neg)

lemma half_angle_swap:
  assumes "symmetricOps ops"
  shows "Math_sin ops (num_div ops (toRadians ops (num_sub ops x y)) (Fin 2)) =
         num_neg (Math_sin ops (num_div ops (toRadians ops (num_sub ops y x)) (Fin 2)))"
proof -
  have "num_sub ops x y = num_neg (num_sub ops y x)"
    by (rule symmetricOpsD(1)[OF assms])
  then show ?thesis
    unfolding toRadians_def
    by (simp only: symmetricOpsD(2)[OF assms] symmetricOpsD(4)[OF assms] symmetricOpsD(5)[OF assms])
qed

lemma calculateDistance_sym:
  assumes "symmetricOps ops"
  shows "calculateDistance ops lat2 lon2 lat1 lon1 = calculateDistance ops lat1 lon1 lat2 lon2"
proof -
  have c: "num_mul ops (Math_cos ops (toRadians ops lat2)) (Math_cos ops (toRadians ops lat1)) =
           num_mul ops (Math_cos ops (toRadians ops lat1)) (Math_cos ops (toRadians ops lat2))"
    using assms unfolding symmetricOps_def by blast
  show ?thesis
    unfolding calculateDistance_def Let_def
    by (simp only: half_angle_swap[OF assms, of lat1 lat2] half_angle_swap[OF assms, of lon1 lon2]
        mul_neg_neg[OF assms] mul_mul_neg_neg[OF assms] c)
qed

subsection \<open>Rounding to a double\<close>

lemma binade_eq:
  assumes "2 powi e \<le> \<bar>x\<bar>" "\<bar>x\<bar> < 2 powi (e + 1)" "- 1022 \<le> e"
  shows "binade x = e"
proof -
  have "(0::real) < 2 powi e" by simp
  with assms(1) have pos: "0 < \<bar>x\<bar>" by linarith
  have a: "2 powr (of_int k) = (2::real) powi k" for k
    by (simp add: powr_real_of_int')
  have "\<lfloor>log 2 \<bar>x\<bar>\<rfloor> = e"
    using floor_log_eq_powr_iff[OF pos, of 2 e] assms(1,2) unfolding a by simp
  with assms(3) show ?thesis by (simp add: binade_def)
qed

lemma roundEven_near:
  assumes "\<bar>of_int m - q\<bar> < 1 / 2"
  shows "roundEven q = m"
proof -
  have "\<lfloor>q\<rfloor> = m \<or> \<lfloor>q\<rfloor> = m - 1" using assms by linarith
  then show ?thesis
  proof
    assume f: "\<lfloor>q\<rfloor> = m"
    then have "of_int m \<le> q" by linarith
    with assms have "q - of_int m < 1 / 2" by linarith
    with f show ?thesis by (simp add: roundEven_def)
  next
    assume f: "\<lfloor>q\<rfloor> = m - 1"
    then have "q < of_int m" by linarith
    with assms have "1 / 2 < q - of_int (m - 1)" by simp
    with f show ?thesis by (simp add: roundEven_def)
  qed
qed

lemma rnd_eval:
  assumes "2 powi e \<le> \<bar>x\<bar>" "\<bar>x\<bar> < 2 powi (e + 1)" "- 1022 \<le> e"
    and "\<bar>of_int m - x / 2 powi (e - 52)\<bar> < 1 / 2"
    and "\<bar>of_int m * 2 powi (e - 52)\<bar> < (2::real) ^ 1024"
  shows "rnd x = Fin (of_int m * 2 powi (e - 52))"
proof -
  have "(0::real) < 2 powi e" by simp
  with assms(1) have "x \<noteq> 0" by linarith
  then show ?thesis
    using assms(5)
    by (simp add: rnd_def binade_eq[OF assms(1,2,3)] roundEven_near[OF assms(4)] Let_def)
qed



lemma rnd_five: "rnd 5 = Fin 5"
  using rnd_eval[of 2 5 5629499534213120]
  by (simp add: power_int_def power_inverse field_simps)



subsection \<open>Evaluations in double arithmetic\<close>

lemma rnd_zero: "rnd 0 = Fin 0"
  by (simp add: rnd_def)

lemma roundEven_close: "\<bar>of_int (roundEven q) - q\<bar> \<le> 1 / 2"
  unfolding roundEven_def Let_def by (auto; linarith)

lemma rnd_overflow: "rnd (- (2 ^ 1024)) = NegInf"
proof -
  have b: "binade (- (2 ^ 1024)) = 1024"
    by (rule binade_eq) (simp_all add: power_int_def)
  have u: "(2::real) powi (1024 - 52) = 2 ^ 972" by (simp add: power_int_def)
  have q: "- (2 ^ 1024) / (2::real) ^ 972 = - (2 ^ 52)"
    by (simp add: field_simps flip: power_add)
  have r: "roundEven (- (2 ^ 52)) = - (2 ^ 52)"
    by (rule roundEven_near) simp
  have y: "of_int (- (2 ^ 52)) * (2::real) ^ 972 = - (2 ^ 1024)"
    by (simp flip: power_add)
  show ?thesis
    unfolding rnd_def Let_def b u q r y by simp
qed

lemma rnd_normal:
  assumes lo: "2 powi e \<le> x" and hi: "x < 2 powi (e + 1)" and e: "- 1022 \<le> e" "e \<le> 1000"
  shows "\<exists>y. rnd x = Fin y \<and> 0 < y \<and> \<bar>y - x\<bar> \<le> 2 powi (e - 53)"
proof -
  have p: "(0::real) < 2 powi e" by simp
  with lo have x: "0 < x" by linarith
  then have ax: "\<bar>x\<bar> = x" by simp
  have b: "binade x = e"
    by (rule binade_eq) (use lo hi e ax in simp_all)
  define u :: real where "u = 2 powi (e - 52)"
  have u: "0 < u" by (simp add: u_def)
  have half: "u / 2 = 2 powi (e - 53)"
    by (simp add: u_def power_int_diff)
  have ue: "2 powi e = 2 ^ 52 * u"
    by (simp add: u_def power_int_diff)
  define m where "m = roundEven (x / u)"
  have close: "\<bar>of_int m - x / u\<bar> \<le> 1 / 2"
    unfolding m_def by (rule roundEven_close)
  have "of_int m * u - x = (of_int m - x / u) * u"
    using u by (simp add: left_diff_distrib)
  then have "\<bar>of_int m * u - x\<bar> = \<bar>of_int m - x / u\<bar> * u"
    using u by (simp add: abs_mult)
  also have "\<dots> \<le> 1 / 2 * u"
    using close u by (intro mult_right_mono) simp_all
  finally have d: "\<bar>of_int m * u - x\<bar> \<le> 2 powi (e - 53)"
    using half by simp
  have "u / 2 < 2 powi e" unfolding ue using u by simp
  with d half lo have pos: "0 < of_int m * u" by linarith
  have "2 powi (e - 53) \<le> (2::real) powi 1000" "2 powi (e + 1) \<le> (2::real) powi 1001"
    using e by (intro power_int_increasing; simp)+
  with d hi have "of_int m * u < 2 powi 1000 + 2 powi 1001" by linarith
  also have "\<dots> < (2::real) ^ 1024" by (simp add: power_int_def)
  finally have "\<bar>of_int m * u\<bar> < 2 ^ 1024" using pos by simp
  then have "rnd x = Fin (of_int m * u)"
    using x by (simp add: rnd_def b Let_def u_def[symmetric] m_def[symmetric])
  with pos d show ?thesis by simp
qed

lemma rnd_pos:
  assumes lo: "2 powi (- 1022) \<le> x" and hi: "x < 2 powi 1000"
  shows "\<exists>y>0. rnd x = Fin y"
proof -
  have "(0::real) < 2 powi (- 1022)" by simp
  with lo have x: "0 < x" by linarith
  define e where "e = \<lfloor>log 2 x\<rfloor>"
  have a: "2 powr (of_int k) = (2::real) powi k" for k
    by (simp add: powr_real_of_int')
  have b: "2 powi e \<le> x" "x < 2 powi (e + 1)"
    using floor_log_eq_powr_iff[OF x, of 2 e] unfolding a e_def by simp_all
  have "(2::real) powi (- 1022) < 2 powi (e + 1)" using lo b(2) by linarith
  moreover have "(2::real) powi (e + 1) \<le> 2 powi (- 1022)" if "e + 1 \<le> - 1022"
    using that by (intro power_int_increasing) simp_all
  ultimately have e1: "- 1022 \<le> e" by fastforce
  have "(2::real) powi e < 2 powi 1000" using hi b(1) by linarith
  moreover have "(2::real) powi 1000 \<le> 2 powi e" if "1000 \<le> e"
    using that by (intro power_int_increasing) simp_all
  ultimately have e2: "e \<le> 1000" by fastforce
  from rnd_normal[OF b e1 e2] show ?thesis by blast
qed

lemma degree_factor: "\<exists>k>0. num_div doubleOps (Math_PI doubleOps) (Fin 180) = Fin k"
proof -
  have "2 powi 1 \<le> pi" "pi < 2 powi (1 + 1)"
    using pi_ge_two pi_less_4 by (simp_all add: power_int_def)
  from rnd_normal[OF this] obtain p where p: "rnd pi = Fin p" "\<bar>p - pi\<bar> \<le> 2 powi (1 - 53)"
    by auto
  have "(2::real) powi (1 - 53) = inverse (2 ^ 52)"
    by (simp add: power_int_def power_one_over)
  also have "\<dots> \<le> 1 / 8" by simp
  finally have "(2::real) powi (1 - 53) \<le> 1 / 8" .
  with p(2) pi_ge_two pi_less_4 have b: "1 < p" "p < 5" by linarith+
  have "(2::real) powi (- 1022) \<le> 2 powi (- 8)" by (intro power_int_increasing) simp_all
  also have "\<dots> = 1 / 256" by (simp add: power_int_def power_one_over)
  also have "\<dots> \<le> p / 180" using b by simp
  finally have lo: "2 powi (- 1022) \<le> p / 180" .
  have "p / 180 < 1" using b by simp
  also have "\<dots> \<le> (2::real) powi 1000" by (simp add: power_int_def)
  finally have hi: "p / 180 < 2 powi 1000" .
  from rnd_pos[OF lo hi] obtain k where "rnd (p / 180) = Fin k" "0 < k" by auto
  then show ?thesis
    using p(1) by (auto simp: doubleOps_def)
qed

lemma toRadians_NegInf: "toRadians doubleOps NegInf = NegInf"
  using degree_factor by (auto simp: toRadians_def doubleOps_def)

lemma calculateDistance_overflow:
  "calculateDistance doubleOps (Fin huge) lon1 (Fin (- huge)) lon2 = NaN"
proof -
  have "- huge + - huge = - (2 ^ 1024 :: real)" by (simp add: huge_def)
  then have "exact_sub (Fin (- huge)) (Fin huge) = Fin (- (2 ^ 1024))"
    by (simp only: exact_sub_def num_neg.simps exact_add.simps)
  then have s: "num_sub doubleOps (Fin (- huge)) (Fin huge) = NegInf"
    by (simp only: doubleOps_def float_ops.simps rnd_number.simps rnd_overflow)
  have h: "Math_sin doubleOps (num_div doubleOps NegInf (Fin 2)) = NaN"
    by (simp add: doubleOps_def)
  have a: "num_add doubleOps (num_mul doubleOps NaN NaN) v = NaN" for v
    by (simp add: doubleOps_def)
  have t: "num_mul doubleOps (Fin 6371)
      (num_mul doubleOps (Fin 2) (Math_atan2 doubleOps (Math_sqrt doubleOps NaN) w)) = NaN" for w
    by (simp add: doubleOps_def)
  show ?thesis
    unfolding calculateDistance_def Let_def s toRadians_NegInf h a t ..
qed

lemma two_stop_rounds: "\<not> loopIterations ops M 2 initialTracking 2"
proof
  assume two: "loopIterations ops M 2 initialTracking 2"
  obtain ri d where f: "findNearest M 2 (visited initialTracking) (currentIndex initialTracking) =
      (ri, d)"
    by (cases "findNearest M 2 (visited initialTracking) (currentIndex initialTracking)")
  show False
  proof (cases ri)
    case None
    then have "loopBody ops M 2 initialTracking = initialTracking"
      using f by (simp add: loopBody_None)
    then have "(loopBody ops M 2 ^^ k) initialTracking = initialTracking" for k
      by (induction k) simp_all
    with two show False
      by (simp add: loopIterations_def initialTracking_def)
  next
    case (Some k)
    note fk = f[unfolded Some]
    have "k \<notin> visited initialTracking" using findNearest_Some(2)[OF fk] .
    then have "card (visited (loopBody ops M 2 initialTracking)) = 2"
      unfolding loopBody_Some[OF fk] by (simp add: initialTracking_def)
    then have "loopIterations ops M 2 initialTracking 1"
      by (simp add: loopIterations_def initialTracking_def)
    from loopIterations_unique[OF two this] show False by simp
  qed
qed


lemma roundEven_neg: "roundEven (- q) = - roundEven q"
proof -
  define f where "f = \<lfloor>q\<rfloor>"
  have fq: "of_int f \<le> q" "q < of_int f + 1" unfolding f_def by linarith+
  show ?thesis
  proof (cases "q = of_int f")
    case True
    then have "\<lfloor>- q\<rfloor> = - f" by simp
    with True show ?thesis by (simp add: roundEven_def f_def[symmetric])
  next
    case False
    with fq have "of_int f < q" by simp
    with fq(2) have n: "\<lfloor>- q\<rfloor> = - f - 1" by linarith
    have "- q - of_int (- f - 1) = 1 - (q - of_int f)" by simp
    then show ?thesis
      unfolding roundEven_def Let_def n f_def[symmetric] by auto
  qed
qed

lemma rnd_neg: "rnd (- x) = num_neg (rnd x)"
proof -
  have b: "binade (- x) = binade x" by (simp add: binade_def)
  show ?thesis
    unfolding rnd_def Let_def b by (simp add: roundEven_neg)
qed

lemma rnd_number_neg: "rnd_number (num_neg v) = num_neg (rnd_number v)"
  by (cases v) (simp_all add: rnd_neg)

lemma rnd_nonneg: "0 \<le> x \<Longrightarrow> nonneg (rnd x)"
proof -
  assume x: "0 \<le> x"
  define u :: real where "u = 2 powi (binade x - 52)"
  have u: "0 < u" by (simp add: u_def)
  have "\<bar>of_int (roundEven (x / u)) - x / u\<bar> \<le> 1 / 2" by (rule roundEven_close)
  moreover have "0 \<le> x / u" using x u by simp
  ultimately have "- 1 < real_of_int (roundEven (x / u))" by linarith
  then have "real_of_int (- 1) < of_int (roundEven (x / u))" by simp
  then have "- 1 < roundEven (x / u)" by (simp only: of_int_less_iff)
  then have "(0::real) \<le> of_int (roundEven (x / u))" by simp
  then have "0 \<le> of_int (roundEven (x / u)) * u" using u by simp
  then show ?thesis
    using x by (simp add: rnd_def Let_def u_def[symmetric])
qed

lemma rnd_number_nonneg: "nonneg v \<Longrightarrow> nonneg (rnd_number v)"
  by (cases v) (simp_all add: rnd_nonneg)

lemma rnd_number_nonnegOrNaN: "nonnegOrNaN v \<Longrightarrow> nonnegOrNaN (rnd_number v)"
  by (cases v) (simp_all add: nonnegOrNaN_def rnd_nonneg)

lemma signPreserving_double: "signPreserving doubleOps"
proof -
  note e = signPreserving_exact[unfolded signPreserving_def exactOps_def float_ops.simps]
  show ?thesis
    unfolding signPreserving_def doubleOps_def float_ops.simps
    using e by (intro conjI allI impI rnd_number_nonneg rnd_number_nonnegOrNaN) blast+
qed

lemma symmetricOps_double: "symmetricOps doubleOps"
proof -
  note e = symmetricOpsD[OF symmetricOps_exact, unfolded exactOps_def float_ops.simps]
  have "rnd_number (exact_sub b a) = num_neg (rnd_number (exact_sub a b))" for a b
    by (simp only: rnd_number_neg[symmetric] e(1)[symmetric])
  moreover have "rnd_number (exact_mul (num_neg a) b) = num_neg (rnd_number (exact_mul a b))"
    for a b
    by (simp only: rnd_number_neg[symmetric] e(2)[symmetric])
  moreover have "rnd_number (exact_mul a b) = rnd_number (exact_mul b a)" for a b
    using e(3)[of a b] by simp
  moreover have "rnd_number (exact_div (num_neg a) b) = num_neg (rnd_number (exact_div a b))"
    for a b
    by (simp only: rnd_number_neg[symmetric] e(4)[symmetric])
  moreover have "rnd_number (exact_sin (num_neg a)) = num_neg (rnd_number (exact_sin a))" for a
    by (simp only: rnd_number_neg[symmetric] e(5)[symmetric])
  ultimately show ?thesis
    unfolding symmetricOps_def doubleOps_def float_ops.simps by blast
qed


lemma rnd_one: "rnd 1 = Fin 1"
  using rnd_eval[of 0 1 4503599627370496]
  by (simp add: power_int_def power_inverse field_simps)

lemma toRadians_zero: "toRadians doubleOps (Fin 0) = Fin 0"
  using degree_factor by (auto simp: toRadians_def doubleOps_def rnd_zero)

lemma calculateDistance_same_place:
  "calculateDistance doubleOps (Fin 0) (Fin 0) (Fin 0) (Fin 0) = Fin 0"
proof -
  have sub: "num_sub doubleOps (Fin 0) (Fin 0) = Fin 0"
    by (simp add: doubleOps_def exact_sub_def rnd_zero)
  have half: "num_div doubleOps (Fin 0) (Fin 2) = Fin 0"
    by (simp add: doubleOps_def rnd_zero)
  have sin0: "Math_sin doubleOps (Fin 0) = Fin 0"
    by (simp add: doubleOps_def rnd_zero)
  have cos0: "Math_cos doubleOps (Fin 0) = Fin 1"
    by (simp add: doubleOps_def rnd_one)
  have mul: "num_mul doubleOps (Fin 0) (Fin 0) = Fin 0" "num_mul doubleOps (Fin 1) (Fin 1) = Fin 1"
    "num_mul doubleOps (Fin 1) (Fin 0) = Fin 0" "num_mul doubleOps (Fin 2) (Fin 0) = Fin 0"
    "num_mul doubleOps (Fin 6371) (Fin 0) = Fin 0"
    by (simp_all add: doubleOps_def rnd_zero rnd_one)
  have add: "num_add doubleOps (Fin 0) (Fin 0) = Fin 0"
    by (simp add: doubleOps_def rnd_zero)
  have sqrt0: "Math_sqrt doubleOps (Fin 0) = Fin 0"
    by (simp add: doubleOps_def rnd_zero)
  have one: "num_sub doubleOps (Fin 1) (Fin 0) = Fin 1"
    by (simp add: doubleOps_def exact_sub_def rnd_one)
  have sqrt1: "Math_sqrt doubleOps (Fin 1) = Fin 1"
    by (simp add: doubleOps_def rnd_one)
  have atan: "Math_atan2 doubleOps (Fin 0) (Fin 1) = Fin 0"
    by (simp add: doubleOps_def atan2_real_def rnd_zero)
  show ?thesis
    unfolding calculateDistance_def Let_def
    by (simp only: sub toRadians_zero half sin0 cos0 mul add sqrt0 one sqrt1 atan)
qed

lemma reachable_same_place: "reachable doubleOps [stopA, stopD, stopE]"
proof -
  have "latitude ([stopA, stopD, stopE] ! i) = Fin 0 \<and> longitude ([stopA, stopD, stopE] ! i) = Fin 0"
    if "i < 3" for i
  proof -
    from that have "i = 0 \<or> i = 1 \<or> i = 2" by linarith
    then show ?thesis by (auto simp: stopA_def stopD_def stopE_def)
  qed
  then show ?thesis
    by (simp add: reachable_def distanceBetween_def calculateDistance_same_place)
qed

subsection \<open>Facts at the concrete inputs\<close>

lemma round2_double_zero: "round2 doubleOps (Fin 0) = Fin 0"
  by (simp add: round2_def doubleOps_def rnd_zero)

lemma round2_nonneg: "signPreserving ops \<Longrightarrow> nonneg v \<Longrightarrow> nonneg (round2 ops v)"
  unfolding round2_def signPreserving_def
  by (metis Math_round_nonneg zero_less_numeral)

lemma findNearest_tieMatrix: "findNearest tieMatrix 4 {0} 0 = (Some 2, Fin 3)"
  by (simp add: findNearest_def scanStep_def tieMatrix_def eval_nat_numeral)

lemma duration_double_single: "calculateEstimatedDuration doubleOps (Fin 0) (Fin 1) = Fin 5"
proof -
  have "\<lfloor>(5 + 1 / 2 :: real)\<rfloor> = 5" by (simp add: floor_eq_iff)
  then have "Math_round (Fin 5) = Fin 5" by (simp only: Math_round.simps) simp
  then show ?thesis
    by (simp add: calculateEstimatedDuration_def doubleOps_def rnd_five rnd_zero)
qed

lemma distance_high_low:
  "distanceBetween doubleOps [stopHigh, stopLow] 0 (Suc 0) = NaN"
  by (simp add: distanceBetween_def stopHigh_def stopLow_def calculateDistance_overflow)

lemma optimize_high_low: "optimizeRouteNearestNeighbor doubleOps [stopHigh, stopLow] = None"
proof (rule optimize_stuck)
  show "2 \<le> length [stopHigh, stopLow]" by simp
next
  fix j assume "0 < j" "j < length [stopHigh, stopLow]"
  then have "j = 1" by simp
  then show "\<not> num_lt (distanceBetween doubleOps [stopHigh, stopLow] 0 j) PosInf"
    by (simp add: distance_high_low)
qed

section \<open>The sequencer\<close>

text \<open>
  C1. For a non-empty list of stops, in every arithmetic, the sequence of a result of
  \<open>optimizeRouteNearestNeighbor\<close> has as many entries as there are stops and is a
  permutation of the stops' identifiers: the same multiset, so none is missing and none
  occurs more often than in the input (distinct identifiers stay distinct). A result
  exists whenever every distance between two stops is below Infinity.
\<close>

theorem sequence_permutation:
  assumes "locs \<noteq> []"
  shows "(reachable ops locs \<longrightarrow> (\<exists>r. optimizeRouteNearestNeighbor ops locs = Some r)) \<and>
         (\<forall>r. optimizeRouteNearestNeighbor ops locs = Some r \<longrightarrow>
            length (sequence r) = length locs \<and>
            mset (sequence r) = mset (map id' locs) \<and>
            (distinct (map id' locs) \<longrightarrow> distinct (sequence r)))"
proof (intro conjI allI impI)
  assume "reachable ops locs"
  then show "\<exists>r. optimizeRouteNearestNeighbor ops locs = Some r" by (rule optimize_total)
next
  fix r assume res: "optimizeRouteNearestNeighbor ops locs = Some r"
  have m: "mset (sequence r) = mset (map id' locs)"
  proof (cases locs rule: length_cases)
    case 1
    with assms show ?thesis by simp
  next
    case (2 l)
    with res show ?thesis by (auto simp: optimize_single)
  next
    case 3
    from optimize_result[OF 3 res] show ?thesis
      by (auto simp: mset_map_indices simp del: mset_map)
  qed
  then show "mset (sequence r) = mset (map id' locs)" .
  from m show "length (sequence r) = length locs"
    using mset_eq_length[of "sequence r" "map id' locs"] by simp
  assume "distinct (map id' locs)"
  with m show "distinct (sequence r)"
    using mset_eq_imp_distinct_iff by blast
qed

theorem sequence_permutation_witness:
  "[stopA, stopD, stopE] \<noteq> [] \<and> reachable doubleOps [stopA, stopD, stopE] \<and>
   distinct (map id' [stopA, stopD, stopE]) \<and>
   (\<exists>r. optimizeRouteNearestNeighbor doubleOps [stopA, stopD, stopE] = Some r \<and>
        length (sequence r) = 3 \<and>
        mset (sequence r) = {#''A'', ''D'', ''E''#} \<and> distinct (sequence r))"
proof -
  have d: "distinct (map id' [stopA, stopD, stopE])"
    by (simp add: stopA_def stopD_def stopE_def)
  have ne: "[stopA, stopD, stopE] \<noteq> []" by simp
  from sequence_permutation[OF ne, of doubleOps] reachable_same_place d
  show ?thesis by (auto simp: stopA_def stopD_def stopE_def)
qed

text \<open>
  C2. For a non-empty list of stops, in every arithmetic, the first entry of the
  sequence of a result is the identifier of the first stop of the input. A result exists
  whenever every distance between two stops is below Infinity.
\<close>

theorem start_anchoring:
  assumes "locs \<noteq> []"
  shows "(reachable ops locs \<longrightarrow> (\<exists>r. optimizeRouteNearestNeighbor ops locs = Some r)) \<and>
         (\<forall>r. optimizeRouteNearestNeighbor ops locs = Some r \<longrightarrow>
            sequence r \<noteq> [] \<and> sequence r ! 0 = id' (locs ! 0))"
proof (intro conjI allI impI)
  assume "reachable ops locs"
  then show "\<exists>r. optimizeRouteNearestNeighbor ops locs = Some r" by (rule optimize_total)
next
  fix r assume res: "optimizeRouteNearestNeighbor ops locs = Some r"
  have "sequence r \<noteq> [] \<and> sequence r ! 0 = id' (locs ! 0)"
  proof (cases locs rule: length_cases)
    case 1
    with assms show ?thesis by simp
  next
    case (2 l)
    with res show ?thesis by (auto simp: optimize_single)
  next
    case 3
    from optimize_result[OF 3 res] obtain idxs where
      i: "mset idxs = mset [0..<length locs]" "hd idxs = 0"
        "sequence r = map (\<lambda>i. id' (locs ! i)) idxs"
      by blast
    from mset_indices_length[OF i(1)] 3 have "idxs \<noteq> []" by auto
    with i(2,3) show ?thesis by (simp add: hd_conv_nth)
  qed
  then show "sequence r \<noteq> []" "sequence r ! 0 = id' (locs ! 0)" by simp_all
qed

theorem start_anchoring_witness:
  "[stopA, stopD, stopE] \<noteq> [] \<and> reachable doubleOps [stopA, stopD, stopE] \<and>
   (\<exists>r. optimizeRouteNearestNeighbor doubleOps [stopA, stopD, stopE] = Some r \<and>
        sequence r ! 0 = ''A'')"
proof -
  have ne: "[stopA, stopD, stopE] \<noteq> []" by simp
  from start_anchoring[OF ne, of doubleOps] reachable_same_place
  show ?thesis by (auto simp: stopA_def)
qed

text \<open>
  C3. A selection step appends the index \<open>k\<close> found by the scan. No unvisited stop is
  strictly nearer to the current stop than \<open>k\<close>, and no unvisited stop before \<open>k\<close> in
  the input order is at the same distance: among the unvisited stops at minimal distance
  the earliest one is chosen.
\<close>

theorem tie_break:
  assumes "findNearest M n (visited st) (currentIndex st) = (Some k, d)"
  shows "sequence' (loopBody ops M n st) = sequence' st @ [k] \<and>
         currentIndex (loopBody ops M n st) = k \<and>
         k < n \<and> k \<notin> visited st \<and> d = M ! currentIndex st ! k \<and>
         (\<forall>i<n. i \<notin> visited st \<longrightarrow> \<not> num_lt (M ! currentIndex st ! i) d) \<and>
         (\<forall>i<k. i \<notin> visited st \<longrightarrow> M ! currentIndex st ! i \<noteq> d)"
  using findNearest_Some[OF assms] by (simp add: loopBody_Some[OF assms])

theorem tie_break_witness:
  "findNearest tieMatrix 4 (visited initialTracking) (currentIndex initialTracking) = (Some 2, Fin 3) \<and>
   tieMatrix ! 0 ! 2 = tieMatrix ! 0 ! 3 \<and>
   sequence' (loopBody doubleOps tieMatrix 4 initialTracking) = [0, 2]"
proof -
  have f: "findNearest tieMatrix 4 (visited initialTracking) (currentIndex initialTracking) =
      (Some 2, Fin 3)"
    by (simp add: initialTracking_def findNearest_tieMatrix)
  from tie_break[OF f, of doubleOps] f show ?thesis
    by (simp add: initialTracking_def tieMatrix_def)
qed

text \<open>
  C4. For two or more stops, in every arithmetic, the total distance of a result is the
  sum of \<open>calculateDistance\<close> over the consecutive stops of the visiting order, added
  up in that order and rounded to two decimals; when the identifiers are distinct it
  equals \<open>calculateRouteDistance\<close> on the same stops and the returned sequence; and it
  is not negative when the arithmetic keeps signs. A result exists whenever every
  distance between two stops is below Infinity.
\<close>

theorem total_distance_sum:
  assumes "2 \<le> length locs"
  shows "(reachable ops locs \<longrightarrow> (\<exists>r. optimizeRouteNearestNeighbor ops locs = Some r)) \<and>
         (\<forall>r. optimizeRouteNearestNeighbor ops locs = Some r \<longrightarrow>
            (signPreserving ops \<longrightarrow> num_le (Fin 0) (totalDistance r)) \<and>
            (\<exists>idxs. mset idxs = mset [0..<length locs] \<and>
               sequence r = map (\<lambda>i. id' (locs ! i)) idxs \<and>
               totalDistance r = round2 ops (pathDistance ops locs idxs)) \<and>
            (distinct (map id' locs) \<longrightarrow>
               totalDistance r = calculateRouteDistance ops locs (sequence r)))"
proof (intro conjI allI impI)
  assume "reachable ops locs"
  then show "\<exists>r. optimizeRouteNearestNeighbor ops locs = Some r" by (rule optimize_total)
next
  fix r assume res: "optimizeRouteNearestNeighbor ops locs = Some r"
  from optimize_result[OF assms res] obtain idxs where
    i: "mset idxs = mset [0..<length locs]"
      "signPreserving ops \<longrightarrow> nonneg (pathDistance ops locs idxs)"
      "sequence r = map (\<lambda>i. id' (locs ! i)) idxs"
      "totalDistance r = round2 ops (pathDistance ops locs idxs)"
    by blast
  from i show "\<exists>idxs. mset idxs = mset [0..<length locs] \<and>
      sequence r = map (\<lambda>i. id' (locs ! i)) idxs \<and>
      totalDistance r = round2 ops (pathDistance ops locs idxs)"
    by auto
  {
    assume sp: "signPreserving ops"
    with i(2) have "nonneg (pathDistance ops locs idxs)" by simp
    from round2_nonneg[OF sp this] show "num_le (Fin 0) (totalDistance r)"
      unfolding i(4) nonneg_le .
  }
  assume d: "distinct (map id' locs)"
  have "2 \<le> length idxs" using mset_indices_length[OF i(1)] assms by simp
  from calculateRouteDistance_path[OF d mset_indices_set[OF i(1)] this, of ops] i(3,4)
  show "totalDistance r = calculateRouteDistance ops locs (sequence r)" by simp
qed

theorem total_distance_sum_witness:
  "2 \<le> length [stopA, stopD, stopE] \<and> reachable doubleOps [stopA, stopD, stopE] \<and>
   signPreserving doubleOps \<and> distinct (map id' [stopA, stopD, stopE]) \<and>
   (\<exists>r. optimizeRouteNearestNeighbor doubleOps [stopA, stopD, stopE] = Some r \<and>
        num_le (Fin 0) (totalDistance r) \<and>
        totalDistance r = calculateRouteDistance doubleOps [stopA, stopD, stopE] (sequence r))"
proof -
  have d: "distinct (map id' [stopA, stopD, stopE])"
    by (simp add: stopA_def stopD_def stopE_def)
  have len: "2 \<le> length [stopA, stopD, stopE]" by simp
  from total_distance_sum[OF len, of doubleOps] reachable_same_place signPreserving_double d
  show ?thesis by auto
qed




text \<open>
  C6. The empty list gives the empty sequence with distance and duration zero; a single
  stop gives the one-entry sequence with distance zero and duration ten (the estimator
  gives five for one stop at distance zero); every result carries the algorithm name
  \<open>nearest_neighbor\<close>; a result exists whenever every distance between two stops is
  below Infinity; and there is no result for two or more stops when no other stop is at
  a distance below Infinity from the first: the scan selects nothing and the loop never
  ends.
\<close>

theorem edge_cases:
  "optimizeRouteNearestNeighbor ops [] =
     Some \<lparr>sequence = [], totalDistance = Fin 0, estimatedDuration = Fin 0,
           algorithm = ''nearest_neighbor''\<rparr> \<and>
   optimizeRouteNearestNeighbor ops [l] =
     Some \<lparr>sequence = [id' l], totalDistance = Fin 0, estimatedDuration = Fin 10,
           algorithm = ''nearest_neighbor''\<rparr> \<and>
   calculateEstimatedDuration doubleOps (Fin 0) (Fin 1) = Fin 5 \<and>
   (\<forall>r. optimizeRouteNearestNeighbor ops locs = Some r \<longrightarrow> algorithm r = ''nearest_neighbor'') \<and>
   (reachable ops locs \<longrightarrow> (\<exists>r. optimizeRouteNearestNeighbor ops locs = Some r)) \<and>
   (2 \<le> length locs \<and>
    (\<forall>j<length locs. 0 < j \<longrightarrow> \<not> num_lt (distanceBetween ops locs 0 j) PosInf) \<longrightarrow>
      optimizeRouteNearestNeighbor ops locs = None)"
proof (intro conjI allI impI)
  show "calculateEstimatedDuration doubleOps (Fin 0) (Fin 1) = Fin 5"
    by (rule duration_double_single)
next
  assume "reachable ops locs"
  then show "\<exists>r. optimizeRouteNearestNeighbor ops locs = Some r" by (rule optimize_total)
next
  fix r assume res: "optimizeRouteNearestNeighbor ops locs = Some r"
  show "algorithm r = ''nearest_neighbor''"
  proof (cases locs rule: length_cases)
    case 1
    with res show ?thesis by (auto simp: optimize_empty)
  next
    case (2 l)
    with res show ?thesis by (auto simp: optimize_single)
  next
    case 3
    from optimize_result[OF 3 res] show ?thesis by blast
  qed
next
  assume "2 \<le> length locs \<and>
    (\<forall>j<length locs. 0 < j \<longrightarrow> \<not> num_lt (distanceBetween ops locs 0 j) PosInf)"
  then show "optimizeRouteNearestNeighbor ops locs = None"
    by (intro optimize_stuck) simp_all
qed (simp_all add: optimize_empty optimize_single)

theorem edge_cases_witness:
  "reachable doubleOps [stopA, stopD, stopE] \<and>
   (\<exists>r. optimizeRouteNearestNeighbor doubleOps [stopA, stopD, stopE] = Some r \<and>
        algorithm r = ''nearest_neighbor'') \<and>
   optimizeRouteNearestNeighbor doubleOps [stopHigh] =
     Some \<lparr>sequence = [''H''], totalDistance = Fin 0, estimatedDuration = Fin 10,
           algorithm = ''nearest_neighbor''\<rparr> \<and>
   2 \<le> length [stopHigh, stopLow] \<and>
   \<not> num_lt (distanceBetween doubleOps [stopHigh, stopLow] 0 1) PosInf \<and>
   optimizeRouteNearestNeighbor doubleOps [stopHigh, stopLow] = None"
proof -
  have nan: "\<not> num_lt (distanceBetween doubleOps [stopHigh, stopLow] 0 1) PosInf"
    by (simp add: distance_high_low)
  have all: "\<forall>j<length [stopHigh, stopLow]. 0 < j \<longrightarrow>
      \<not> num_lt (distanceBetween doubleOps [stopHigh, stopLow] 0 j) PosInf"
  proof (intro allI impI)
    fix j assume "j < length [stopHigh, stopLow]" "0 < j"
    then have "j = 1" by simp
    with nan show "\<not> num_lt (distanceBetween doubleOps [stopHigh, stopLow] 0 j) PosInf" by simp
  qed
  have len: "2 \<le> length [stopHigh, stopLow]" by simp
  from edge_cases[of doubleOps stopHigh "[stopHigh, stopLow]"] all len
  have stuck: "optimizeRouteNearestNeighbor doubleOps [stopHigh, stopLow] = None" by blast
  from edge_cases[of doubleOps stopHigh "[stopA, stopD, stopE]"] reachable_same_place
  have "\<exists>r. optimizeRouteNearestNeighbor doubleOps [stopA, stopD, stopE] = Some r \<and>
        algorithm r = ''nearest_neighbor''" by blast
  moreover from edge_cases[of doubleOps stopHigh "[stopA, stopD, stopE]"]
  have "optimizeRouteNearestNeighbor doubleOps [stopHigh] =
     Some \<lparr>sequence = [''H''], totalDistance = Fin 0, estimatedDuration = Fin 10,
           algorithm = ''nearest_neighbor''\<rparr>"
    by (simp add: stopHigh_def)
  ultimately show ?thesis using reachable_same_place nan len stuck by blast
qed

text \<open>
  C6 at an input with finite coordinates: the difference of the two latitudes overflows,
  the distance is NaN, and the optimizer never returns.
\<close>

theorem finite_input_never_returns:
  "optimizeRouteNearestNeighbor doubleOps [stopHigh, stopLow] = None"
  by (rule optimize_high_low)

text \<open>
  C7, as stated: for \<open>N\<close> stops the greedy loop makes exactly \<open>N\<close> selection steps.
  For two stops it never makes two.
\<close>

theorem two_stops_one_iteration:
  "\<not> loopIterations doubleOps (calculateDistanceMatrix doubleOps [stopA, stopB])
       (length [stopA, stopB]) initialTracking (length [stopA, stopB])"
proof -
  have "length [stopA, stopB] = 2" by simp
  then show ?thesis by (simp only: two_stop_rounds not_False_eq_True)
qed

text \<open>
  C7, amended. When every distance between two stops is below Infinity, the optimizer
  returns a sequence with one entry per stop; for two or more stops the loop ends after
  exactly \<open>N - 1\<close> rounds, each selecting one stop, and the visiting order then holds
  every index below \<open>N\<close> exactly once. Stops with equal coordinates are no exception.
\<close>

theorem loop_visits_each_stop_once:
  assumes rch: "reachable ops locs"
  shows "(\<exists>r. optimizeRouteNearestNeighbor ops locs = Some r \<and>
              length (sequence r) = length locs) \<and>
         (2 \<le> length locs \<longrightarrow>
            (\<exists>st. loop ops (calculateDistanceMatrix ops locs) (length locs) initialTracking =
                    Some st \<and>
               st = (loopBody ops (calculateDistanceMatrix ops locs) (length locs) ^^
                       (length locs - 1)) initialTracking \<and>
               loopIterations ops (calculateDistanceMatrix ops locs) (length locs)
                 initialTracking (length locs - 1) \<and>
               length (sequence' st) = length locs \<and> distinct (sequence' st) \<and>
               set (sequence' st) = {0..<length locs} \<and>
               optimizeRouteNearestNeighbor ops locs \<noteq> None \<and>
               map_option sequence (optimizeRouteNearestNeighbor ops locs) =
                 Some (map (\<lambda>i. id' (locs ! i)) (sequence' st))))"
proof (intro conjI impI)
  from optimize_total[OF rch] obtain r where r: "optimizeRouteNearestNeighbor ops locs = Some r"
    by blast
  have "length (sequence r) = length locs"
  proof (cases locs rule: length_cases)
    case 1
    with r show ?thesis by (auto simp: optimize_empty)
  next
    case (2 l)
    with r show ?thesis by (auto simp: optimize_single)
  next
    case 3
    from optimize_result[OF 3 r] obtain idxs where
      "mset idxs = mset [0..<length locs]" "sequence r = map (\<lambda>i. id' (locs ! i)) idxs"
      by blast
    then show ?thesis using mset_indices_length[of idxs "length locs"] by simp
  qed
  with r show "\<exists>r. optimizeRouteNearestNeighbor ops locs = Some r \<and>
      length (sequence r) = length locs"
    by blast
next
  assume len: "2 \<le> length locs"
  then have ne: "locs \<noteq> []" by auto
  let ?M = "calculateDistanceMatrix ops locs" and ?n = "length locs"
  define st where "st = (loopBody ops ?M ?n ^^ (?n - 1)) initialTracking"
  have it: "loopIterations ops ?M ?n initialTracking (?n - 1)"
    using rch ne by (rule loop_iterations_reachable)
  then have run: "loop ops ?M ?n initialTracking = Some st"
    unfolding st_def by (rule loopIterations_loop)
  note f = loop_final[OF ne run]
  have perm: "mset (sequence' st) = mset [0..<?n]" using f by (rule final_perm)
  have "length (sequence' st) = ?n" using perm by (rule mset_indices_length)
  moreover have "distinct (sequence' st)" "set (sequence' st) = {0..<?n}"
    using f by (simp_all add: trackInv_def)
  moreover have "optimizeRouteNearestNeighbor ops locs \<noteq> None"
    "map_option sequence (optimizeRouteNearestNeighbor ops locs) =
       Some (map (\<lambda>i. id' (locs ! i)) (sequence' st))"
    unfolding optimize_many[OF len] run by simp_all
  ultimately show "\<exists>st. loop ops ?M ?n initialTracking = Some st \<and>
               st = (loopBody ops ?M ?n ^^ (?n - 1)) initialTracking \<and>
               loopIterations ops ?M ?n initialTracking (?n - 1) \<and>
               length (sequence' st) = ?n \<and> distinct (sequence' st) \<and>
               set (sequence' st) = {0..<?n} \<and>
               optimizeRouteNearestNeighbor ops locs \<noteq> None \<and>
               map_option sequence (optimizeRouteNearestNeighbor ops locs) =
                 Some (map (\<lambda>i. id' (locs ! i)) (sequence' st))"
    using run it st_def by blast
qed

theorem loop_visits_each_stop_once_witness:
  "reachable doubleOps [stopA, stopD, stopE] \<and> 2 \<le> length [stopA, stopD, stopE] \<and>
   latitude stopD = latitude stopE \<and> longitude stopD = longitude stopE \<and>
   (\<exists>st. loop doubleOps (calculateDistanceMatrix doubleOps [stopA, stopD, stopE]) 3
            initialTracking = Some st \<and>
      loopIterations doubleOps (calculateDistanceMatrix doubleOps [stopA, stopD, stopE]) 3
        initialTracking 2 \<and>
      length (sequence' st) = 3 \<and> distinct (sequence' st) \<and> set (sequence' st) = {0..<3})"
proof -
  have len: "length [stopA, stopD, stopE] = 3" by simp
  have m: "(3::nat) - 1 = 2" by simp
  have two: "2 \<le> length [stopA, stopD, stopE]" by simp
  have dup: "latitude stopD = latitude stopE" "longitude stopD = longitude stopE"
    by (simp_all add: stopD_def stopE_def)
  note t = loop_visits_each_stop_once[OF reachable_same_place, THEN conjunct2, rule_format, OF two]
  from t[unfolded len m] reachable_same_place two dup show ?thesis by blast
qed

section \<open>The distance function\<close>

text \<open>
  C8, as stated: for finite coordinates the two argument orders give equal results. For
  two latitudes whose difference overflows both results are NaN, and NaN is not equal to
  itself.
\<close>

theorem distance_overflow_not_equal:
  "calculateDistance doubleOps (Fin huge) (Fin 0) (Fin (- huge)) (Fin 0) = NaN \<and>
   calculateDistance doubleOps (Fin (- huge)) (Fin 0) (Fin huge) (Fin 0) = NaN \<and>
   \<not> num_eq (calculateDistance doubleOps (Fin huge) (Fin 0) (Fin (- huge)) (Fin 0))
            (calculateDistance doubleOps (Fin (- huge)) (Fin 0) (Fin huge) (Fin 0))"
proof -
  have a: "calculateDistance doubleOps (Fin huge) (Fin 0) (Fin (- huge)) (Fin 0) = NaN"
    by (rule calculateDistance_overflow)
  then have "calculateDistance doubleOps (Fin (- huge)) (Fin 0) (Fin huge) (Fin 0) = NaN"
    by (simp only: calculateDistance_sym[OF symmetricOps_double])
  with a show ?thesis by (simp add: num_eq_def)
qed

text \<open>
  C8, amended. In an arithmetic where rounding commutes with negation, multiplication is
  commutative and the sine is odd, \<open>calculateDistance\<close> returns the same value
  whichever of the two points comes first, for all coordinates; the two results compare
  equal exactly when that value is not NaN.
\<close>

theorem distance_symmetric:
  assumes "symmetricOps ops"
  shows "calculateDistance ops lat1 lon1 lat2 lon2 = calculateDistance ops lat2 lon2 lat1 lon1 \<and>
         (num_eq (calculateDistance ops lat1 lon1 lat2 lon2)
                 (calculateDistance ops lat2 lon2 lat1 lon1) \<longleftrightarrow>
          calculateDistance ops lat1 lon1 lat2 lon2 \<noteq> NaN)"
  using calculateDistance_sym[OF assms, of lat2 lon2 lat1 lon1] by (simp add: num_eq_def)

theorem distance_symmetric_witness:
  "symmetricOps doubleOps \<and>
   calculateDistance doubleOps (Fin 0) (Fin 0) (Fin 0) (Fin 1) =
     calculateDistance doubleOps (Fin 0) (Fin 1) (Fin 0) (Fin 0) \<and>
   calculateDistance doubleOps (Fin 0) (Fin 0) (Fin 0) (Fin 0) \<noteq> NaN \<and>
   num_eq (calculateDistance doubleOps (Fin 0) (Fin 0) (Fin 0) (Fin 0))
          (calculateDistance doubleOps (Fin 0) (Fin 0) (Fin 0) (Fin 0))"
proof -
  have "calculateDistance doubleOps (Fin 0) (Fin 0) (Fin 0) (Fin 0) \<noteq> NaN"
    by (simp add: calculateDistance_same_place)
  with distance_symmetric[OF symmetricOps_double, of "Fin 0" "Fin 0" "Fin 0" "Fin 1"]
    distance_symmetric[OF symmetricOps_double, of "Fin 0" "Fin 0" "Fin 0" "Fin 0"]
    symmetricOps_double
  show ?thesis by blast
qed

section \<open>The distance matrix\<close>

text \<open>
  C9. For a list of \<open>N\<close> stops \<open>calculateDistanceMatrix\<close> returns \<open>N\<close> rows of
  \<open>N\<close> entries (no row for \<open>N = 0\<close>); every entry \<open>(i, i)\<close> is the constant zero
  and every entry \<open>(i, j)\<close> with \<open>i \<noteq> j\<close> is \<open>calculateDistance\<close> at the
  coordinates of stop \<open>i\<close> and stop \<open>j\<close>.
\<close>

theorem matrix_entries:
  "length (calculateDistanceMatrix ops locs) = length locs \<and>
   (\<forall>i<length locs.
      length (calculateDistanceMatrix ops locs ! i) = length locs \<and>
      calculateDistanceMatrix ops locs ! i ! i = Fin 0 \<and>
      (\<forall>j<length locs. i \<noteq> j \<longrightarrow>
         calculateDistanceMatrix ops locs ! i ! j =
           calculateDistance ops (latitude (locs ! i)) (longitude (locs ! i))
             (latitude (locs ! j)) (longitude (locs ! j))))"
  by (simp add: matrix_length matrix_row_length matrix_nth distanceBetween_def)

theorem matrix_entries_witness:
  "calculateDistanceMatrix doubleOps [] = [] \<and>
   length (calculateDistanceMatrix doubleOps [stopA, stopB]) = 2 \<and>
   (0::nat) < length [stopA, stopB] \<and> (1::nat) < length [stopA, stopB] \<and> (0::nat) \<noteq> 1 \<and>
   calculateDistanceMatrix doubleOps [stopA, stopB] ! 0 ! 0 = Fin 0 \<and>
   calculateDistanceMatrix doubleOps [stopA, stopB] ! 0 ! 1 =
     calculateDistance doubleOps (Fin 0) (Fin 0) (Fin 0) (Fin 1)"
  using matrix_entries[of doubleOps "[]"] matrix_entries[of doubleOps "[stopA, stopB]"]
  by (simp add: stopA_def stopB_def)

section \<open>The distance of a given sequence\<close>

text \<open>
  C10. \<open>calculateRouteDistance\<close> returns zero for a sequence of at most one
  identifier; for a longer one (and for every sequence, in an arithmetic that rounds
  zero to zero) it returns, rounded to two decimals, the sum of the distances of those
  consecutive pairs whose two identifiers both name a stop of the list, the other pairs
  being left out.
\<close>

theorem route_distance_total:
  "(length ids \<le> 1 \<longrightarrow> calculateRouteDistance ops locs ids = Fin 0) \<and>
   (1 < length ids \<or> round2 ops (Fin 0) = Fin 0 \<longrightarrow>
      calculateRouteDistance ops locs ids =
        round2 ops (foldl (num_add ops) (Fin 0)
          (map (hopDistance ops locs) (filter (hopKnown locs) (zip ids (tl ids))))))"
proof (cases "length ids \<le> 1")
  case True
  then have "zip ids (tl ids) = []" by (cases ids) simp_all
  then have "round2 ops (foldl (num_add ops) (Fin 0)
       (map (hopDistance ops locs) (filter (hopKnown locs) (zip ids (tl ids))))) =
       round2 ops (Fin 0)"
    by (simp only: filter.simps list.map foldl_Nil)
  with True show ?thesis by (simp add: calculateRouteDistance_hops)
next
  case False
  then show ?thesis by (simp add: calculateRouteDistance_hops)
qed

theorem route_distance_total_witness:
  "length [''A''] \<le> 1 \<and> calculateRouteDistance doubleOps [stopA, stopB] [''A''] = Fin 0 \<and>
   1 < length [''A'', ''Z'', ''B''] \<and> round2 doubleOps (Fin 0) = Fin 0 \<and>
   \<not> hopKnown [stopA, stopB] (''A'', ''Z'') \<and> \<not> hopKnown [stopA, stopB] (''Z'', ''B'') \<and>
   calculateRouteDistance doubleOps [stopA, stopB] [''A'', ''Z'', ''B''] = Fin 0"
  using route_distance_total[of "[''A'']" doubleOps "[stopA, stopB]"]
    route_distance_total[of "[''A'', ''Z'', ''B'']" doubleOps "[stopA, stopB]"]
  by (simp add: hopKnown_def stopA_def stopB_def round2_double_zero)

end
